theory Spec2Isabelle
  imports Main "HOL-Library.Sublist" "HOL-Library.AList" "HOL-Library.List_Lexorder"
    "HOL-Library.Char_ord"
begin

section \<open>Errors\<close>

text \<open>
  The Go program reports failures as \<^verbatim>\<open>error\<close> values.  Errors of the operating system
  are \<^verbatim>\<open>*os.PathError\<close> (operation, path, errno) or \<^verbatim>\<open>*os.SyscallError\<close>;
  \<^verbatim>\<open>fmt.Errorf("msg")\<close> and \<^verbatim>\<open>errors.New\<close> give a plain message; and
  \<^verbatim>\<open>fmt.Errorf("msg: %w", err)\<close> wraps an error in a message.
\<close>

type_synonym path = string

datatype errno = ENOENT | ENOTDIR | EISDIR | EEXIST | EACCES | EIO

datatype err =
    PathError string path errno
  | SyscallError string errno
  | ErrorString string
  | Wrap string err

fun underlying :: "err \<Rightarrow> errno option" where
  "underlying (PathError _ _ n) = Some n"
| "underlying (SyscallError _ n) = Some n"
| "underlying (ErrorString _) = None"
| "underlying (Wrap _ _) = None"

definition IsNotExist :: "err \<Rightarrow> bool" where
  "IsNotExist x = (underlying x = Some ENOENT)"

section \<open>Package path/filepath (Unix)\<close>

text \<open>
  The program calls \<^verbatim>\<open>filepath.Abs\<close>, \<^verbatim>\<open>Rel\<close>, \<^verbatim>\<open>Join\<close>, \<^verbatim>\<open>Base\<close>,
  \<^verbatim>\<open>Dir\<close> and \<^verbatim>\<open>strings.HasPrefix\<close>.  They belong to Go's standard library, not to
  the repository; they are modelled on strings, element by element, after their
  documented rules for the separator \<^verbatim>\<open>/\<close>:
  \<^verbatim>\<open>Clean\<close> drops empty and \<^verbatim>\<open>.\<close> elements, cancels an inner \<^verbatim>\<open>..\<close> against the
  element before it, drops \<^verbatim>\<open>..\<close> at the start of a rooted path, and returns
  \<^verbatim>\<open>.\<close> for an empty result.
\<close>

definition Separator :: char where
  "Separator = CHR ''/''"

fun splitSep :: "string \<Rightarrow> string list" where
  "splitSep [] = [[]]"
| "splitSep (c # cs) =
     (if c = Separator then [] # splitSep cs
      else (case splitSep cs of [] \<Rightarrow> [[c]] | x # xs \<Rightarrow> (c # x) # xs))"

fun joinSep :: "string list \<Rightarrow> string" where
  "joinSep [] = []"
| "joinSep [x] = x"
| "joinSep (x # y # ys) = x @ Separator # joinSep (y # ys)"

definition HasPrefix :: "string \<Rightarrow> string \<Rightarrow> bool" where
  "HasPrefix s pre = (take (length pre) s = pre)"

definition IsAbs :: "path \<Rightarrow> bool" where
  "IsAbs p = HasPrefix p [Separator]"

text \<open>
  \<open>cleanElems rooted out es\<close> is the loop of \<^verbatim>\<open>Clean\<close>: \<open>out\<close> is the output written
  so far (last element first), \<open>es\<close> the elements still to read.
\<close>

fun cleanElems :: "bool \<Rightarrow> string list \<Rightarrow> string list \<Rightarrow> string list" where
  "cleanElems rooted out [] = rev out"
| "cleanElems rooted out (e # es) =
     (if e = [] \<or> e = ''.'' then cleanElems rooted out es
      else if e = ''..'' then
        (case out of
           [] \<Rightarrow> if rooted then cleanElems rooted [] es else cleanElems rooted [''..''] es
         | t # ts \<Rightarrow> if t = ''..'' then cleanElems rooted (e # out) es
                    else cleanElems rooted ts es)
      else cleanElems rooted (e # out) es)"

definition Clean :: "path \<Rightarrow> path" where
  "Clean p =
     (if p = [] then ''.''
      else let rooted = IsAbs p;
               out = joinSep (cleanElems rooted [] (splitSep p))
           in if rooted then Separator # out
              else if out = [] then ''.'' else out)"

definition Join :: "path list \<Rightarrow> path" where
  "Join elem =
     (case dropWhile (\<lambda>e. e = []) elem of
        [] \<Rightarrow> []
      | e # es \<Rightarrow> Clean (joinSep (e # es)))"

definition Base :: "path \<Rightarrow> path" where
  "Base p =
     (if p = [] then ''.''
      else let q = rev (dropWhile (\<lambda>c. c = Separator) (rev p));
               b = rev (takeWhile (\<lambda>c. c \<noteq> Separator) (rev q))
           in if b = [] then [Separator] else b)"

definition Dir :: "path \<Rightarrow> path" where
  "Dir p = Clean (rev (dropWhile (\<lambda>c. c \<noteq> Separator) (rev p)))"

text \<open>
  \<^verbatim>\<open>Rel\<close> cleans both paths, skips the elements they share, and then climbs with one
  \<^verbatim>\<open>..\<close> for every element left of the base before descending into what is left of
  the target.  It fails when one path is rooted and the other is not, and when the
  base continues with \<^verbatim>\<open>..\<close>.
\<close>

fun stripCommon :: "string list \<Rightarrow> string list \<Rightarrow> string list \<times> string list" where
  "stripCommon (b # bs) (t # ts) =
     (if b = t then stripCommon bs ts else (b # bs, t # ts))"
| "stripCommon bs ts = (bs, ts)"

definition relElems :: "path \<Rightarrow> string list" where
  "relElems p =
     (if p = [] then []
      else if last p = Separator then butlast (splitSep p)
      else splitSep p)"

definition Rel :: "path \<Rightarrow> path \<Rightarrow> err + path" where
  "Rel basepath targpath =
     (let base = Clean basepath; targ = Clean targpath in
      if targ = base then Inr ''.''
      else
        let base' = (if base = ''.'' then [] else base) in
        if IsAbs base' \<noteq> IsAbs targ
        then Inl (ErrorString (''Rel: can't make '' @ targpath @ '' relative to '' @ basepath))
        else
          (case stripCommon (relElems base') (relElems targ) of
             (bs, ts) \<Rightarrow>
               if bs \<noteq> [] \<and> hd bs = ''..''
               then Inl (ErrorString
                      (''Rel: can't make '' @ targpath @ '' relative to '' @ basepath))
               else if bs \<noteq> []
               then Inr (joinSep (replicate (length bs) ''..'' @ ts))
               else Inr (joinSep ts)))"

section \<open>The operating system\<close>

text \<open>
  The file system is a tree: a regular file holds its bytes, a directory its entries
  by name.  A location is the list of names from the root.  There are no symbolic
  links (the program treats them in no special way).
\<close>

datatype node = RegFile string | Directory "(string \<times> node) list"

fun isDirectory :: "node \<Rightarrow> bool" where
  "isDirectory (Directory _) = True"
| "isDirectory (RegFile _) = False"

fun lookup :: "node \<Rightarrow> string list \<Rightarrow> node option" where
  "lookup n [] = Some n"
| "lookup (RegFile _) (c # cs) = None"
| "lookup (Directory es) (c # cs) =
     (case map_of es c of None \<Rightarrow> None | Some n \<Rightarrow> lookup n cs)"

text \<open>\<open>put t l v\<close> stores \<open>v\<close> at location \<open>l\<close>, in place when \<open>l\<close> exists.\<close>

fun put :: "node \<Rightarrow> string list \<Rightarrow> node \<Rightarrow> node" where
  "put t [] v = v"
| "put (RegFile b) (c # cs) v = RegFile b"
| "put (Directory es) (c # cs) v =
     Directory (AList.update c
       (put (case map_of es c of None \<Rightarrow> Directory [] | Some n \<Rightarrow> n) cs v) es)"

text \<open>
  \<open>mkdirAll t l\<close> makes \<open>l\<close> and every missing ancestor a directory; it fails, changing
  nothing, when \<open>l\<close> or an ancestor is a regular file.
\<close>

fun mkdirAll :: "node \<Rightarrow> string list \<Rightarrow> node option" where
  "mkdirAll (RegFile b) l = None"
| "mkdirAll (Directory es) [] = Some (Directory es)"
| "mkdirAll (Directory es) (c # cs) =
     (case mkdirAll (case map_of es c of None \<Rightarrow> Directory [] | Some n \<Rightarrow> n) cs of
        None \<Rightarrow> None
      | Some n' \<Rightarrow> Some (Directory (AList.update c n' es)))"

text \<open>
  The environment of a run: the working directory of the process (a location), and
  the failures the system injects (permission denied, input/output errors): for an
  operation on a path name, the errno it fails with, if any.  \<open>short_write\<close> is how many
  bytes a failing write stores before it fails.
\<close>

datatype sysop =
  OpGetwd | OpStat | OpLstat | OpMkdir | OpOpen | OpCreate | OpRead | OpWrite | OpSync
  | OpClose | OpReadDir

record env =
  cwd :: "string list"
  fault :: "sysop \<Rightarrow> path \<Rightarrow> errno option"
  short_write :: "path \<Rightarrow> nat"

text \<open>An open file: the name it was opened under and the location it refers to.\<close>

type_synonym handle = "path \<times> string list"

record state =
  root :: node
  opened :: "handle list"

datatype fileinfo = FileInfo (IsDir: bool)

type_synonym direntry = "string \<times> bool"

text \<open>
  Path resolution as the kernel does it: from the root or the working directory, one
  element at a time; every element, also an empty one or \<^verbatim>\<open>.\<close>, needs the location
  reached so far to be a directory.
\<close>

fun walkElems :: "node \<Rightarrow> string list \<Rightarrow> string list \<Rightarrow> errno + string list" where
  "walkElems t cur [] = Inr cur"
| "walkElems t cur (e # es) =
     (case lookup t cur of
        None \<Rightarrow> Inl ENOENT
      | Some (RegFile _) \<Rightarrow> Inl ENOTDIR
      | Some (Directory ents) \<Rightarrow>
          if e = [] \<or> e = ''.'' then walkElems t cur es
          else if e = ''..'' then walkElems t (butlast cur) es
          else (case map_of ents e of
                  None \<Rightarrow> Inl ENOENT
                | Some _ \<Rightarrow> walkElems t (cur @ [e]) es))"

definition resolve :: "env \<Rightarrow> state \<Rightarrow> path \<Rightarrow> errno + (string list \<times> node)" where
  "resolve e s p =
     (if p = [] then Inl ENOENT
      else (case walkElems (root s) (if IsAbs p then [] else cwd e) (splitSep p) of
              Inl n \<Rightarrow> Inl n
            | Inr l \<Rightarrow> (case lookup (root s) l of
                          None \<Rightarrow> Inl ENOENT
                        | Some n \<Rightarrow> Inr (l, n))))"

text \<open>The location a path name denotes, whether or not anything exists there.\<close>

definition locOf :: "env \<Rightarrow> path \<Rightarrow> string list" where
  "locOf e p = cleanElems True (if IsAbs p then [] else rev (cwd e)) (splitSep p)"

definition Getwd :: "env \<Rightarrow> err + path" where
  "Getwd e =
     (case fault e OpGetwd [] of
        Some n \<Rightarrow> Inl (SyscallError ''getwd'' n)
      | None \<Rightarrow> Inr (Separator # joinSep (cwd e)))"

definition Abs :: "env \<Rightarrow> path \<Rightarrow> err + path" where
  "Abs e p =
     (if IsAbs p then Inr (Clean p)
      else (case Getwd e of
              Inl x \<Rightarrow> Inl x
            | Inr wd \<Rightarrow> Inr (Join [wd, p])))"

definition Stat :: "env \<Rightarrow> state \<Rightarrow> path \<Rightarrow> err + fileinfo" where
  "Stat e s p =
     (case fault e OpStat p of
        Some n \<Rightarrow> Inl (PathError ''stat'' p n)
      | None \<Rightarrow>
          (case resolve e s p of
             Inl n \<Rightarrow> Inl (PathError ''stat'' p n)
           | Inr (l, n) \<Rightarrow> Inr (FileInfo (isDirectory n))))"

definition Lstat :: "env \<Rightarrow> state \<Rightarrow> path \<Rightarrow> err + fileinfo" where
  "Lstat e s p =
     (case fault e OpLstat p of
        Some n \<Rightarrow> Inl (PathError ''lstat'' p n)
      | None \<Rightarrow>
          (case resolve e s p of
             Inl n \<Rightarrow> Inl (PathError ''lstat'' p n)
           | Inr (l, n) \<Rightarrow> Inr (FileInfo (isDirectory n))))"

text \<open>
  \<^verbatim>\<open>os.MkdirAll\<close>: creates the directory and any missing parents; does nothing when
  the path is a directory already.  The program passes it cleaned paths only.
\<close>

definition MkdirAll :: "env \<Rightarrow> state \<Rightarrow> path \<Rightarrow> (err + unit) \<times> state" where
  "MkdirAll e s p =
     (case fault e OpMkdir p of
        Some n \<Rightarrow> (Inl (PathError ''mkdir'' p n), s)
      | None \<Rightarrow>
          (case mkdirAll (root s) (locOf e p) of
             None \<Rightarrow> (Inl (PathError ''mkdir'' p ENOTDIR), s)
           | Some t \<Rightarrow> (Inr (), s\<lparr>root := t\<rparr>)))"

text \<open>\<^verbatim>\<open>os.Open\<close>: opens for reading; a directory can be opened, but not read as a file.\<close>

definition Open :: "env \<Rightarrow> state \<Rightarrow> path \<Rightarrow> (err + handle) \<times> state" where
  "Open e s p =
     (case fault e OpOpen p of
        Some n \<Rightarrow> (Inl (PathError ''open'' p n), s)
      | None \<Rightarrow>
          (case resolve e s p of
             Inl n \<Rightarrow> (Inl (PathError ''open'' p n), s)
           | Inr (l, n) \<Rightarrow> (Inr (p, l), s\<lparr>opened := (p, l) # opened s\<rparr>)))"

text \<open>
  \<^verbatim>\<open>os.Create\<close>: truncates the file when it exists, creates it in an existing
  directory otherwise; fails on a directory.
\<close>

definition Create :: "env \<Rightarrow> state \<Rightarrow> path \<Rightarrow> (err + handle) \<times> state" where
  "Create e s p =
     (case fault e OpCreate p of
        Some n \<Rightarrow> (Inl (PathError ''open'' p n), s)
      | None \<Rightarrow>
          (case resolve e s p of
             Inr (l, Directory _) \<Rightarrow> (Inl (PathError ''open'' p EISDIR), s)
           | Inr (l, RegFile _) \<Rightarrow>
               (Inr (p, l), \<lparr>root = put (root s) l (RegFile []), opened = (p, l) # opened s\<rparr>)
           | Inl n \<Rightarrow>
               if n \<noteq> ENOENT then (Inl (PathError ''open'' p n), s)
               else
                 let d = rev (dropWhile (\<lambda>c. c \<noteq> Separator) (rev p));
                     b = rev (takeWhile (\<lambda>c. c \<noteq> Separator) (rev p))
                 in if b = [] \<or> b = ''.'' \<or> b = ''..''
                    then (Inl (PathError ''open'' p (if b = [] then EISDIR else ENOENT)), s)
                    else
                      (case resolve e s (if d = [] then ''.'' else d) of
                         Inl m \<Rightarrow> (Inl (PathError ''open'' p m), s)
                       | Inr (l, RegFile _) \<Rightarrow> (Inl (PathError ''open'' p ENOTDIR), s)
                       | Inr (l, Directory ents) \<Rightarrow>
                           (case map_of ents b of
                              Some _ \<Rightarrow> (Inl (PathError ''open'' p EEXIST), s)
                            | None \<Rightarrow>
                                (Inr (p, l @ [b]),
                                 \<lparr>root = put (root s) (l @ [b]) (RegFile []),
                                  opened = (p, l @ [b]) # opened s\<rparr>)))))"

text \<open>
  \<^verbatim>\<open>io.Copy(dst, src)\<close>: reads the source file to its end and writes the bytes to the
  destination, which \<^verbatim>\<open>os.Create\<close> has just truncated.
\<close>

definition Copy :: "env \<Rightarrow> state \<Rightarrow> handle \<Rightarrow> handle \<Rightarrow> (err + nat) \<times> state" where
  "Copy e s dstFile srcFile =
     (case lookup (root s) (snd srcFile) of
        None \<Rightarrow> (Inl (PathError ''read'' (fst srcFile) EIO), s)
      | Some (Directory _) \<Rightarrow> (Inl (PathError ''read'' (fst srcFile) EISDIR), s)
      | Some (RegFile bytes) \<Rightarrow>
          (case fault e OpRead (fst srcFile) of
             Some n \<Rightarrow> (Inl (PathError ''read'' (fst srcFile) n), s)
           | None \<Rightarrow>
               (case fault e OpWrite (fst dstFile) of
                  Some n \<Rightarrow>
                    (Inl (PathError ''write'' (fst dstFile) n),
                     s\<lparr>root := put (root s) (snd dstFile)
                                 (RegFile (take (short_write e (fst dstFile)) bytes))\<rparr>)
                | None \<Rightarrow>
                    (Inr (length bytes),
                     s\<lparr>root := put (root s) (snd dstFile) (RegFile bytes)\<rparr>))))"

definition Sync :: "env \<Rightarrow> state \<Rightarrow> handle \<Rightarrow> (err + unit) \<times> state" where
  "Sync e s f =
     (case fault e OpSync (fst f) of
        Some n \<Rightarrow> (Inl (PathError ''sync'' (fst f) n), s)
      | None \<Rightarrow> (Inr (), s))"

text \<open>\<^verbatim>\<open>Close\<close> releases the handle, also when it reports an error.\<close>

definition Close :: "env \<Rightarrow> state \<Rightarrow> handle \<Rightarrow> (err + unit) \<times> state" where
  "Close e s f =
     (case fault e OpClose (fst f) of
        Some n \<Rightarrow> (Inl (PathError ''close'' (fst f) n), s\<lparr>opened := remove1 f (opened s)\<rparr>)
      | None \<Rightarrow> (Inr (), s\<lparr>opened := remove1 f (opened s)\<rparr>))"

text \<open>\<^verbatim>\<open>os.ReadDir\<close>: the entries of a directory, sorted by name.\<close>

definition ReadDir :: "env \<Rightarrow> state \<Rightarrow> path \<Rightarrow> err + direntry list" where
  "ReadDir e s p =
     (case fault e OpReadDir p of
        Some n \<Rightarrow> Inl (PathError ''open'' p n)
      | None \<Rightarrow>
          (case resolve e s p of
             Inl n \<Rightarrow> Inl (PathError ''open'' p n)
           | Inr (l, RegFile _) \<Rightarrow> Inl (PathError ''readdirent'' p ENOTDIR)
           | Inr (l, Directory ents) \<Rightarrow>
               Inr (sort_key fst (map (\<lambda>(n, x). (n, isDirectory x)) ents))))"

section \<open>The program\<close>

subsection \<open>ensureDstOutsideSrc\<close>

definition ensureDstOutsideSrc :: "env \<Rightarrow> path \<Rightarrow> path \<Rightarrow> err + unit" where
  "ensureDstOutsideSrc e src dst =
     (case Abs e src of
        Inl x \<Rightarrow> Inl (Wrap ''failed to get absolute path of source'' x)
      | Inr absSrc \<Rightarrow>
     (case Abs e dst of
        Inl x \<Rightarrow> Inl (Wrap ''failed to get absolute path of destination'' x)
      | Inr absDst \<Rightarrow>
     (case Rel absSrc absDst of
        Inl x \<Rightarrow> Inl (Wrap ''failed to compute relative path'' x)
      | Inr rel \<Rightarrow>
          if rel = ''.'' \<or> \<not> HasPrefix rel ''..''
          then Inl (ErrorString ''destination cannot be inside source directory'')
          else Inr ())))"

subsection \<open>backupFile\<close>

text \<open>
  The deferred \<^verbatim>\<open>Close\<close> calls run when the function returns, the last deferred
  first; what they return is dropped.
\<close>

definition deferred :: "env \<Rightarrow> handle list \<Rightarrow> (err + unit) \<times> state \<Rightarrow> (err + unit) \<times> state" where
  "deferred e hs r = (fst r, fold (\<lambda>h s. snd (Close e s h)) hs (snd r))"

definition backupFile :: "env \<Rightarrow> state \<Rightarrow> path \<Rightarrow> path \<Rightarrow> (err + unit) \<times> state" where
  "backupFile e s src dst =
     (case ensureDstOutsideSrc e src dst of
        Inl x \<Rightarrow> (Inl x, s)
      | Inr _ \<Rightarrow>
     (case (case Stat e s dst of
              Inr dstInfo \<Rightarrow> if IsDir dstInfo then Inr (Join [dst, Base src]) else Inr dst
            | Inl x \<Rightarrow> if \<not> IsNotExist x
                       then Inl (Wrap ''failed to access destination'' x) else Inr dst) of
        Inl x \<Rightarrow> (Inl x, s)
      | Inr dst' \<Rightarrow>
     (case MkdirAll e s (Dir dst') of
        (Inl x, s1) \<Rightarrow> (Inl (Wrap ''failed to create destination directories'' x), s1)
      | (Inr _, s1) \<Rightarrow>
     (case Open e s1 src of
        (Inl x, s2) \<Rightarrow> (Inl (Wrap ''failed to open source file'' x), s2)
      | (Inr srcFile, s2) \<Rightarrow> deferred e [srcFile]
     (case Create e s2 dst' of
        (Inl x, s3) \<Rightarrow> (Inl (Wrap ''failed to create destination file'' x), s3)
      | (Inr dstFile, s3) \<Rightarrow> deferred e [dstFile]
     (case Copy e s3 dstFile srcFile of
        (Inl x, s4) \<Rightarrow> (Inl (Wrap ''failed to copy file'' x), s4)
      | (Inr _, s4) \<Rightarrow> Sync e s4 dstFile))))))"

subsection \<open>backupDirectory\<close>

text \<open>
  \<^verbatim>\<open>filepath.WalkDir\<close> calls the function on the root and then, for a directory, on
  its entries in the order of \<^verbatim>\<open>os.ReadDir\<close>, which it reads after the call on the
  directory itself.  The walk stops at the first error.  The file system changes
  under the walk, so the recursion is bounded by a depth: \<open>None\<close> says that the bound
  was reached.  (The function of the program never returns \<^verbatim>\<open>SkipDir\<close>.)
\<close>

type_synonym walkfn =
  "state \<Rightarrow> path \<Rightarrow> direntry option \<Rightarrow> err option \<Rightarrow> (err + unit) \<times> state"

function walkDir ::
    "nat \<Rightarrow> walkfn \<Rightarrow> env \<Rightarrow> state \<Rightarrow> path \<Rightarrow> direntry \<Rightarrow> ((err + unit) \<times> state) option"
  and walkDirs ::
    "nat \<Rightarrow> walkfn \<Rightarrow> env \<Rightarrow> state \<Rightarrow> path \<Rightarrow> direntry list \<Rightarrow> ((err + unit) \<times> state) option"
  where
  "walkDir 0 fn e s p d = None"
| "walkDir (Suc k) fn e s p d =
     (case fn s p (Some d) None of
        (Inl x, s1) \<Rightarrow> Some (Inl x, s1)
      | (Inr _, s1) \<Rightarrow>
          if \<not> snd d then Some (Inr (), s1)
          else
            (case ReadDir e s1 p of
               Inl x \<Rightarrow> Some (fn s1 p (Some d) (Some x))
             | Inr dirs \<Rightarrow> walkDirs k fn e s1 p dirs))"
| "walkDirs k fn e s p [] = Some (Inr (), s)"
| "walkDirs k fn e s p (d1 # ds) =
     (case walkDir k fn e s (Join [p, fst d1]) d1 of
        None \<Rightarrow> None
      | Some (Inl x, s1) \<Rightarrow> Some (Inl x, s1)
      | Some (Inr _, s1) \<Rightarrow> walkDirs k fn e s1 p ds)"
  by pat_completeness auto
termination
  by (relation "inv_image (less_than <*lex*> less_than) (\<lambda>x. case x of
        Inl (k, fn, e, s, p, d) \<Rightarrow> (k, 0)
      | Inr (k, fn, e, s, p, ds) \<Rightarrow> (k, Suc (length ds)))") auto

definition WalkDir ::
    "nat \<Rightarrow> walkfn \<Rightarrow> env \<Rightarrow> state \<Rightarrow> path \<Rightarrow> ((err + unit) \<times> state) option" where
  "WalkDir k fn e s rt =
     (case Lstat e s rt of
        Inl x \<Rightarrow> Some (fn s rt None (Some x))
      | Inr info \<Rightarrow> walkDir k fn e s rt (Base rt, IsDir info))"

text \<open>The function \<^verbatim>\<open>backupDirectory\<close> hands to \<^verbatim>\<open>WalkDir\<close>.\<close>

definition walkFn :: "env \<Rightarrow> path \<Rightarrow> path \<Rightarrow> walkfn" where
  "walkFn e src dst s p dir werr =
     (case werr of
        Some x \<Rightarrow> (Inl x, s)
      | None \<Rightarrow>
          (case Rel src p of
             Inl x \<Rightarrow> (Inl x, s)
           | Inr relPath \<Rightarrow>
               let targetPath = Join [dst, relPath] in
               (case dir of
                  None \<Rightarrow> (Inl (ErrorString ''nil pointer dereference''), s)
                | Some d \<Rightarrow>
                    if snd d then MkdirAll e s targetPath
                    else backupFile e s p targetPath)))"

definition backupDirectory ::
    "nat \<Rightarrow> env \<Rightarrow> state \<Rightarrow> path \<Rightarrow> path \<Rightarrow> ((err + unit) \<times> state) option" where
  "backupDirectory k e s src dst =
     (case ensureDstOutsideSrc e src dst of
        Inl x \<Rightarrow> Some (Inl x, s)
      | Inr _ \<Rightarrow> WalkDir k (walkFn e src dst) e s src)"

subsection \<open>runE and main\<close>

text \<open>
  With fewer than two arguments \<^verbatim>\<open>runE\<close> prints the help text.  The command line
  library (cobra) refuses more than two arguments, runs the \<^verbatim>\<open>version\<close> subcommand
  when that is the first argument, and hands the error of \<^verbatim>\<open>runE\<close> back to
  \<^verbatim>\<open>main\<close>, which exits with status 1 on an error.
\<close>

definition runE :: "nat \<Rightarrow> env \<Rightarrow> state \<Rightarrow> string list \<Rightarrow> ((err + unit) \<times> state) option" where
  "runE k e s args =
     (if length args < 2 then Some (Inr (), s)
      else
        let src = args ! 0; dst = args ! 1 in
        (case Stat e s src of
           Inl x \<Rightarrow> Some (Inl (Wrap ''unable to access source'' x), s)
         | Inr srcInfo \<Rightarrow>
             if IsDir srcInfo then backupDirectory k e s src dst
             else Some (backupFile e s src dst)))"

definition Execute :: "nat \<Rightarrow> env \<Rightarrow> state \<Rightarrow> string list \<Rightarrow> ((err + unit) \<times> state) option" where
  "Execute k e s args =
     (if args \<noteq> [] \<and> hd args = ''version'' then Some (Inr (), s)
      else if length args > 2
      then Some (Inl (ErrorString ''accepts at most 2 arg(s)''), s)
      else runE k e s args)"

definition main :: "nat \<Rightarrow> env \<Rightarrow> state \<Rightarrow> string list \<Rightarrow> (nat \<times> state) option" where
  "main k e s args =
     (case Execute k e s args of
        None \<Rightarrow> None
      | Some (Inl x, s1) \<Rightarrow> Some (1, s1)
      | Some (Inr _, s1) \<Rightarrow> Some (0, s1))"

subsection \<open>The parts of backupFile\<close>

text \<open>
  The proofs take \<^verbatim>\<open>backupFile\<close> in three parts: the choice of the destination
  (lines 146 to 151 of the source), the copy to it (lines 153 to 161), and what happens
  once the source is open (lines 163 to 173).  Lemma \<open>backupFile_parts\<close> below shows
  that the parts make up the function.
\<close>

definition effectiveDst :: "env \<Rightarrow> state \<Rightarrow> path \<Rightarrow> path \<Rightarrow> err + path" where
  "effectiveDst e s src dst =
     (case Stat e s dst of
        Inr dstInfo \<Rightarrow> if IsDir dstInfo then Inr (Join [dst, Base src]) else Inr dst
      | Inl x \<Rightarrow> if \<not> IsNotExist x
                 then Inl (Wrap ''failed to access destination'' x) else Inr dst)"

definition copyOpened :: "env \<Rightarrow> state \<Rightarrow> handle \<Rightarrow> path \<Rightarrow> (err + unit) \<times> state" where
  "copyOpened e s2 srcFile dst' =
     (case Create e s2 dst' of
        (Inl x, s3) \<Rightarrow> (Inl (Wrap ''failed to create destination file'' x), s3)
      | (Inr dstFile, s3) \<Rightarrow> deferred e [dstFile]
     (case Copy e s3 dstFile srcFile of
        (Inl x, s4) \<Rightarrow> (Inl (Wrap ''failed to copy file'' x), s4)
      | (Inr _, s4) \<Rightarrow> Sync e s4 dstFile))"

definition copyTo :: "env \<Rightarrow> state \<Rightarrow> path \<Rightarrow> path \<Rightarrow> (err + unit) \<times> state" where
  "copyTo e s src dst' =
     (case MkdirAll e s (Dir dst') of
        (Inl x, s1) \<Rightarrow> (Inl (Wrap ''failed to create destination directories'' x), s1)
      | (Inr _, s1) \<Rightarrow>
     (case Open e s1 src of
        (Inl x, s2) \<Rightarrow> (Inl (Wrap ''failed to open source file'' x), s2)
      | (Inr srcFile, s2) \<Rightarrow> deferred e [srcFile] (copyOpened e s2 srcFile dst')))"

section \<open>The notions of the specification\<close>

text \<open>
  A name of a directory entry is not empty, is neither \<^verbatim>\<open>.\<close> nor \<^verbatim>\<open>..\<close>, and holds no
  separator.  The elements of a resolved (absolute, cleaned) path are its names; a path
  descends from another when it is that path or lies below it.
\<close>

definition validName :: "string \<Rightarrow> bool" where
  "validName n = (n \<noteq> [] \<and> n \<noteq> ''.'' \<and> n \<noteq> ''..'' \<and> Separator \<notin> set n)"

definition elems :: "path \<Rightarrow> string list" where
  "elems p = filter (\<lambda>x. x \<noteq> []) (splitSep p)"

definition descendsFrom :: "path \<Rightarrow> path \<Rightarrow> bool" where
  "descendsFrom d a = prefix (elems a) (elems d)"

text \<open>An environment without injected failures, for the examples.\<close>

definition quiet :: "string list \<Rightarrow> env" where
  "quiet wd = \<lparr>cwd = wd, fault = (\<lambda>_ _. None), short_write = (\<lambda>_. 0)\<rparr>"

text \<open>
  The working directory of an environment is a location: a list of names.
\<close>

definition validEnv :: "env \<Rightarrow> bool" where
  "validEnv e = (\<forall>c\<in>set (cwd e). validName c)"

text \<open>
  A location can be written as a file when it holds a regular file, or when it holds
  nothing and its parent is a directory.
\<close>

definition writable :: "node \<Rightarrow> string list \<Rightarrow> bool" where
  "writable t L =
     ((\<exists>c. lookup t L = Some (RegFile c)) \<or>
      (\<exists>l b es. L = l @ [b] \<and> lookup t l = Some (Directory es) \<and> lookup t L = None))"

text \<open>
  The cleaned form of a path, from its elements: \<open>render\<close> writes the elements out, rooted
  or not; a list of elements is in clean form when it is a run of \<^verbatim>\<open>..\<close> (none when the
  path is rooted) followed by names.
\<close>

definition render :: "bool \<Rightarrow> string list \<Rightarrow> path" where
  "render r X = (if r then Separator # joinSep X
                 else if joinSep X = [] then ''.'' else joinSep X)"

definition normalElem :: "string \<Rightarrow> bool" where
  "normalElem x = (x \<noteq> [] \<and> x \<noteq> ''.'' \<and> Separator \<notin> set x)"

definition cleanForm :: "bool \<Rightarrow> string list \<Rightarrow> bool" where
  "cleanForm r X =
     (\<exists>k ns. X = replicate k ''..'' @ ns \<and> (\<forall>n\<in>set ns. validName n) \<and> (r \<longrightarrow> k = 0))"

text \<open>A small file system and environments with one injected failure, for the examples.\<close>

definition demoFS :: node where
  "demoFS = Directory
     [(''w'', Directory []),
      (''t1'', Directory [(''source.txt'', RegFile ''Hello, Directory!'')]),
      (''t2'', Directory []),
      (''a'', Directory [(''f'', RegFile ''X'')]),
      (''s'', Directory [(''file1.txt'', RegFile ''File 1''),
                        (''subdir'', Directory [(''file2.txt'', RegFile ''File 2'')])])]"

definition demo :: state where
  "demo = \<lparr>root = demoFS, opened = []\<rparr>"

definition deny :: "sysop \<Rightarrow> path \<Rightarrow> env" where
  "deny op p = \<lparr>cwd = [''w''],
     fault = (\<lambda>o' q. if o' = op \<and> q = p then Some EACCES else None),
     short_write = (\<lambda>_. 0)\<rparr>"

text \<open>
  The messages \<^verbatim>\<open>ensureDstOutsideSrc\<close> and \<^verbatim>\<open>backupFile\<close> wrap errors in, and an
  environment changed in the failures of \<^verbatim>\<open>Close\<close> only.
\<close>

definition engineMessages :: "string list" where
  "engineMessages =
     [''failed to get absolute path of source'',
      ''failed to get absolute path of destination'',
      ''failed to compute relative path'',
      ''failed to access destination'',
      ''failed to create destination directories'',
      ''failed to open source file'',
      ''failed to create destination file'',
      ''failed to copy file'']"

fun wrappedByEngine :: "err \<Rightarrow> bool" where
  "wrappedByEngine (Wrap m y) = (m \<in> set engineMessages)"
| "wrappedByEngine (PathError _ _ _) = False"
| "wrappedByEngine (SyscallError _ _) = False"
| "wrappedByEngine (ErrorString _) = False"

definition withClose :: "env \<Rightarrow> (path \<Rightarrow> errno option) \<Rightarrow> env" where
  "withClose e f = e\<lparr>fault := (\<lambda>op p. if op = OpClose then f p else fault e op p)\<rparr>"

section \<open>Paths: lemmas\<close>

lemma splitSep_ne [simp]: "splitSep p \<noteq> []"
  by (induction p) (auto split: list.splits)

lemma splitSep_nosep: "Separator \<notin> set x \<Longrightarrow> splitSep x = [x]"
  by (induction x) auto

lemma splitSep_append_sep:
  "splitSep (a @ Separator # b) = splitSep a @ splitSep b"
  by (induction a) (auto split: list.splits)

lemma splitSep_elem_nosep: "x \<in> set (splitSep p) \<Longrightarrow> Separator \<notin> set x"
  by (induction p arbitrary: x) (auto split: list.splits if_splits)

lemma joinSep_Cons: "xs \<noteq> [] \<Longrightarrow> joinSep (x # xs) = x @ Separator # joinSep xs"
  by (cases xs) auto

lemma splitSep_joinSep:
  "xs \<noteq> [] \<Longrightarrow> \<forall>x\<in>set xs. Separator \<notin> set x \<Longrightarrow> splitSep (joinSep xs) = xs"
proof (induction xs rule: joinSep.induct)
  case 1
  then show ?case by simp
next
  case (2 x)
  then show ?case by (simp add: splitSep_nosep)
next
  case (3 x y ys)
  then show ?case by (simp add: splitSep_append_sep splitSep_nosep)
qed

lemma joinSep_splitSep: "joinSep (splitSep p) = p"
proof (induction p)
  case Nil
  then show ?case by simp
next
  case (Cons c p)
  show ?case
  proof (cases "c = Separator")
    case True
    then show ?thesis using Cons by (simp add: joinSep_Cons)
  next
    case False
    obtain x xs where sp: "splitSep p = x # xs" by (cases "splitSep p") auto
    then show ?thesis using Cons False by (cases xs) auto
  qed
qed

lemma cleanElems_append:
  "cleanElems r out (xs @ ys) = cleanElems r (rev (cleanElems r out xs)) ys"
  by (induction xs arbitrary: out) (auto split: list.splits)

lemma cleanElems_valid:
  "\<forall>x\<in>set xs. validName x \<Longrightarrow> cleanElems r out xs = rev out @ xs"
  by (induction xs arbitrary: out) (auto simp: validName_def)

lemma cleanElems_rooted_valid:
  "\<forall>x\<in>set out. validName x \<Longrightarrow> \<forall>x\<in>set xs. Separator \<notin> set x \<Longrightarrow>
   \<forall>x\<in>set (cleanElems True out xs). validName x"
proof (induction xs arbitrary: out)
  case Nil
  then show ?case by simp
next
  case (Cons e es)
  have es: "\<forall>x\<in>set es. Separator \<notin> set x" using Cons.prems(2) by simp
  note po = Cons.prems(1)
  show ?case
  proof (cases "e = [] \<or> e = ''.''")
    case True
    then have eq: "cleanElems True out (e # es) = cleanElems True out es" by auto
    have "\<forall>x\<in>set (cleanElems True out es). validName x" by (rule Cons.IH[OF po es])
    then show ?thesis by (simp only: eq)
  next
    case False
    show ?thesis
    proof (cases "e = ''..''")
      case True
      show ?thesis
      proof (cases out)
        case Nil
        then have eq: "cleanElems True out (e # es) = cleanElems True [] es" using True by simp
        have "\<forall>x\<in>set (cleanElems True [] es). validName x"
          by (rule Cons.IH[OF _ es]) simp
        then show ?thesis by (simp only: eq)
      next
        case c: (Cons t ts)
        have t: "t \<noteq> ''..''" using po c by (simp add: validName_def)
        have eq: "cleanElems True out (e # es) = cleanElems True ts es"
          using True c t by simp
        have "\<forall>x\<in>set ts. validName x" using po c by simp
        then have "\<forall>x\<in>set (cleanElems True ts es). validName x"
          by (rule Cons.IH[OF _ es])
        then show ?thesis by (simp only: eq)
      qed
    next
      case ne: False
      have v: "validName e" using False ne Cons.prems(2) by (simp add: validName_def)
      have eq: "cleanElems True out (e # es) = cleanElems True (e # out) es"
        using False ne by simp
      have "\<forall>x\<in>set (e # out). validName x" using v po by simp
      then have "\<forall>x\<in>set (cleanElems True (e # out) es). validName x"
        by (rule Cons.IH[OF _ es])
      then show ?thesis by (simp only: eq)
    qed
  qed
qed

lemma Separator_not_dot [simp]: "Separator \<noteq> CHR ''.''" "CHR ''.'' \<noteq> Separator"
  by (simp_all add: Separator_def)

lemma IsAbs_Cons [simp]: "IsAbs (c # p) = (c = Separator)"
  by (simp add: IsAbs_def HasPrefix_def)

lemma IsAbs_Nil [simp]: "\<not> IsAbs []"
  by (simp add: IsAbs_def HasPrefix_def)

lemma validName_nosep: "validName n \<Longrightarrow> Separator \<notin> set n"
  by (simp add: validName_def)

lemma splitSep_joinSep_valid:
  "A \<noteq> [] \<Longrightarrow> \<forall>n\<in>set A. validName n \<Longrightarrow> splitSep (joinSep A) = A"
  by (simp add: splitSep_joinSep validName_nosep)

lemma splitSep_rooted:
  assumes "\<forall>n\<in>set A. validName n"
  shows "splitSep (Separator # joinSep A) = (if A = [] then [[], []] else [] # A)"
  using assms by (auto simp: splitSep_joinSep validName_nosep)

lemma cleanElems_rooted_form:
  assumes "\<forall>n\<in>set A. validName n"
  shows "cleanElems True [] (splitSep (Separator # joinSep A)) = A"
proof (cases "A = []")
  case True
  then show ?thesis by simp
next
  case False
  then have "splitSep (joinSep A) = A"
    using assms by (simp add: splitSep_joinSep validName_nosep)
  then show ?thesis using assms by (simp add: cleanElems_valid)
qed

lemma Clean_rooted:
  "IsAbs x \<Longrightarrow> Clean x = Separator # joinSep (cleanElems True [] (splitSep x))"
  by (cases x) (auto simp: Clean_def)

lemma Clean_rooted_valid:
  "IsAbs x \<Longrightarrow> \<forall>n\<in>set (cleanElems True [] (splitSep x)). validName n"
  by (rule cleanElems_rooted_valid) (auto dest: splitSep_elem_nosep)

lemma Clean_rooted_form:
  assumes "\<forall>n\<in>set A. validName n"
  shows "Clean (Separator # joinSep A) = Separator # joinSep A"
proof -
  have "IsAbs (Separator # joinSep A)" by simp
  then show ?thesis by (simp only: Clean_rooted cleanElems_rooted_form[OF assms])
qed

lemma Abs_form:
  assumes "Abs e p = Inr a"
  shows "\<exists>A. a = Separator # joinSep A \<and> (\<forall>n\<in>set A. validName n)"
proof (cases "IsAbs p")
  case True
  then have "a = Separator # joinSep (cleanElems True [] (splitSep p))"
    using assms by (simp add: Abs_def Clean_rooted)
  then show ?thesis using Clean_rooted_valid[OF True] by blast
next
  case False
  then obtain wd where wd: "Getwd e = Inr wd" and a: "a = Join [wd, p]"
    using assms by (auto simp: Abs_def split: sum.splits)
  have "wd = Separator # joinSep (cwd e)"
    using wd by (auto simp: Getwd_def split: option.splits)
  then have "a = Clean (wd @ Separator # p)" and ab: "IsAbs (wd @ Separator # p)"
    using a by (simp_all add: Join_def)
  then have "a = Separator # joinSep (cleanElems True [] (splitSep (wd @ Separator # p)))"
    by (simp add: Clean_rooted)
  then show ?thesis using Clean_rooted_valid[OF ab] by blast
qed

lemma joinSep_ne:
  "A \<noteq> [] \<Longrightarrow> \<forall>n\<in>set A. validName n \<Longrightarrow> joinSep A \<noteq> []"
  by (cases A rule: joinSep.cases) (auto simp: validName_def)

lemma last_joinSep_valid:
  "A \<noteq> [] \<Longrightarrow> \<forall>n\<in>set A. validName n \<Longrightarrow> last (joinSep A) \<noteq> Separator"
proof (induction A rule: joinSep.induct)
  case 1
  then show ?case by simp
next
  case (2 x)
  then have x: "x \<noteq> []" and ns: "Separator \<notin> set x" by (auto simp: validName_def)
  have "last x \<in> set x" using x by (rule last_in_set)
  then show ?case using ns by auto
next
  case (3 x y ys)
  then have "joinSep (y # ys) \<noteq> []" using joinSep_ne[of "y # ys"] by simp
  then show ?case using 3 by simp
qed

lemma relElems_rooted:
  assumes "\<forall>n\<in>set A. validName n"
  shows "relElems (Separator # joinSep A) = [] # A"
proof (cases "A = []")
  case True
  then show ?thesis by (simp add: relElems_def)
next
  case False
  then have "joinSep A \<noteq> []" using assms by (simp add: joinSep_ne)
  then have "last (Separator # joinSep A) \<noteq> Separator"
    using last_joinSep_valid[OF False assms] by simp
  then show ?thesis using assms False by (simp add: relElems_def splitSep_joinSep_valid)
qed

lemma stripCommon_split:
  "stripCommon xs ys = (bs, ts) \<Longrightarrow>
   \<exists>c. xs = c @ bs \<and> ys = c @ ts \<and> (bs = [] \<or> ts = [] \<or> hd bs \<noteq> hd ts)"
proof (induction xs ys rule: stripCommon.induct)
  case (1 b bs' t ts')
  show ?case
  proof (cases "b = t")
    case True
    then obtain c where "bs' = c @ bs" "ts' = c @ ts" "bs = [] \<or> ts = [] \<or> hd bs \<noteq> hd ts"
      using 1 by auto
    then show ?thesis using True by (intro exI[of _ "b # c"]) simp
  next
    case False
    then show ?thesis using 1 by (intro exI[of _ "[]"]) auto
  qed
qed simp_all

lemma elems_rooted:
  assumes "\<forall>n\<in>set A. validName n"
  shows "elems (Separator # joinSep A) = A"
proof -
  have "filter (\<lambda>x. x \<noteq> []) A = A"
    using assms by (auto simp: validName_def intro: filter_True)
  then show ?thesis using assms
    by (cases "A = []") (simp_all add: elems_def splitSep_joinSep_valid)
qed

lemma joinSep_dotdot_prefix:
  "HasPrefix (joinSep (''..'' # xs)) ''..'' \<and> joinSep (''..'' # xs) \<noteq> ''.''"
  by (cases xs) (auto simp: HasPrefix_def)

lemma Rel_rooted_outside:
  assumes A: "\<forall>n\<in>set A. validName n" and D: "\<forall>n\<in>set D. validName n"
    and np: "\<not> prefix A D"
  shows "\<exists>k ts. Rel (Separator # joinSep A) (Separator # joinSep D)
            = Inr (joinSep (''..'' # replicate k ''..'' @ ts))"
proof -
  let ?a = "Separator # joinSep A" and ?d = "Separator # joinSep D"
  have ne: "?d \<noteq> ?a"
  proof
    assume "?d = ?a"
    then have "elems ?d = elems ?a" by simp
    then have "D = A" using A D by (simp add: elems_rooted)
    then show False using np by simp
  qed
  obtain bs ts where st: "stripCommon ([] # A) ([] # D) = (bs, ts)"
    by (cases "stripCommon ([] # A) ([] # D)") auto
  then obtain bs' where st': "stripCommon A D = (bs, ts)" by simp
  from stripCommon_split[OF st'] obtain c where c: "A = c @ bs" "D = c @ ts" by blast
  have bsne: "bs \<noteq> []" using c np by auto
  then obtain b bs'' where bs: "bs = b # bs''" by (cases bs) auto
  have "b \<in> set A" using c bs by simp
  then have "b \<noteq> ''..''" using A by (auto simp: validName_def)
  then have "Rel ?a ?d = Inr (joinSep (replicate (length bs) ''..'' @ ts))"
    using ne st bs A D
    by (simp add: Rel_def Clean_rooted_form relElems_rooted Let_def del: stripCommon.simps)
  then show ?thesis using bs by auto
qed

lemma Clean_render: "Clean p = render (IsAbs p) (cleanElems (IsAbs p) [] (splitSep p))"
  by (cases p) (auto simp: Clean_def render_def Let_def)

lemma validName_normal: "validName n \<Longrightarrow> normalElem n"
  by (simp add: validName_def normalElem_def)

lemma normalElem_dotdot [simp]: "normalElem ''..''"
  by (simp add: normalElem_def Separator_def)

lemma cleanForm_normal:
  assumes "cleanForm r X"
  shows "\<forall>x\<in>set X. normalElem x"
proof
  fix x assume x: "x \<in> set X"
  obtain k ns where f: "X = replicate k ''..'' @ ns" "\<forall>n\<in>set ns. validName n"
    using assms by (auto simp: cleanForm_def)
  from x f(1) have "x = ''..'' \<or> x \<in> set ns" by auto
  then show "normalElem x" using f(2) validName_normal by auto
qed

lemma cleanForm_Nil [simp]: "cleanForm r []"
  by (simp add: cleanForm_def)

lemma cleanForm_snoc: "cleanForm r X \<Longrightarrow> validName n \<Longrightarrow> cleanForm r (X @ [n])"
  unfolding cleanForm_def
  by (elim exE conjE, rule_tac x = k in exI, rule_tac x = "ns @ [n]" in exI) auto

lemma cleanForm_append: "cleanForm r X \<Longrightarrow> \<forall>n\<in>set q. validName n \<Longrightarrow> cleanForm r (X @ q)"
  unfolding cleanForm_def
  by (elim exE conjE, rule_tac x = k in exI, rule_tac x = "ns @ q" in exI) auto

lemma cleanForm_rooted: "cleanForm True X \<longleftrightarrow> (\<forall>n\<in>set X. validName n)"
  by (auto simp: cleanForm_def)

lemma cleanForm_dotdot_last:
  assumes "cleanForm False (X @ [''..''])"
  shows "\<exists>k. X = replicate k ''..''"
proof -
  obtain k ns where f: "X @ [''..''] = replicate k ''..'' @ ns" "\<forall>n\<in>set ns. validName n"
    using assms by (auto simp: cleanForm_def)
  have "ns = []"
  proof (rule ccontr)
    assume "ns \<noteq> []"
    then have "last ns = ''..''" using f(1) by (metis last_appendR last_snoc)
    moreover have "last ns \<in> set ns" using \<open>ns \<noteq> []\<close> by simp
    ultimately show False using f(2) by (auto simp: validName_def)
  qed
  then have "X @ [''..''] = replicate k ''..''" using f(1) by simp
  then have "k \<noteq> 0" by (cases k) auto
  then obtain j where "k = Suc j" by (cases k) auto
  then have "X @ [''..''] = replicate j ''..'' @ [''..'']"
    using \<open>X @ [''..''] = replicate k ''..''\<close> by (simp add: replicate_append_same)
  then show ?thesis by auto
qed

lemma cleanForm_butlast:
  assumes "cleanForm False (X @ [t])" and "t \<noteq> ''..''"
  shows "cleanForm False X"
proof -
  obtain k ns where f: "X @ [t] = replicate k ''..'' @ ns" "\<forall>n\<in>set ns. validName n"
    using assms by (auto simp: cleanForm_def)
  have "ns \<noteq> []"
  proof
    assume "ns = []"
    then have "X @ [t] = replicate k ''..''" using f(1) by simp
    then have "t \<in> set (replicate k ''..'')" by (metis in_set_conv_decomp)
    then show False using assms(2) by auto
  qed
  then obtain ns' n where ns: "ns = ns' @ [n]" by (cases ns rule: rev_cases) auto
  then have "X = replicate k ''..'' @ ns'" using f(1) by simp
  then show ?thesis using f(2) ns by (auto simp: cleanForm_def)
qed

lemma cleanElems_cleanForm:
  "cleanForm False (rev out) \<Longrightarrow> \<forall>x\<in>set xs. Separator \<notin> set x \<Longrightarrow>
   cleanForm False (cleanElems False out xs)"
proof (induction xs arbitrary: out)
  case Nil
  then show ?case by simp
next
  case (Cons e es)
  have es: "\<forall>x\<in>set es. Separator \<notin> set x" using Cons.prems(2) by simp
  note po = Cons.prems(1)
  show ?case
  proof (cases "e = [] \<or> e = ''.''")
    case True
    then have eq: "cleanElems False out (e # es) = cleanElems False out es" by auto
    show ?thesis unfolding eq by (rule Cons.IH[OF po es])
  next
    case False
    show ?thesis
    proof (cases "e = ''..''")
      case True
      show ?thesis
      proof (cases out)
        case Nil
        then have eq: "cleanElems False out (e # es) = cleanElems False [''..''] es"
          using True by simp
        have "cleanForm False (rev [''..''])"
          unfolding cleanForm_def by (rule exI[of _ 1], rule exI[of _ "[]"]) simp
        then show ?thesis unfolding eq by (rule Cons.IH[OF _ es])
      next
        case c: (Cons t ts)
        show ?thesis
        proof (cases "t = ''..''")
          case tt: True
          then have eq: "cleanElems False out (e # es) = cleanElems False (e # out) es"
            using True c by simp
          obtain k where "rev ts = replicate k ''..''"
            using cleanForm_dotdot_last[of "rev ts"] po c tt by auto
          then have "rev (e # out) = replicate (Suc (Suc k)) ''..''"
            using c tt True by (simp add: replicate_append_same)
          then have "cleanForm False (rev (e # out))"
            unfolding cleanForm_def by (intro exI[of _ "Suc (Suc k)"] exI[of _ "[]"]) simp
          then show ?thesis unfolding eq by (rule Cons.IH[OF _ es])
        next
          case tf: False
          then have eq: "cleanElems False out (e # es) = cleanElems False ts es"
            using True c by simp
          have "cleanForm False (rev ts)" using cleanForm_butlast[of "rev ts" t] po c tf by simp
          then show ?thesis unfolding eq by (rule Cons.IH[OF _ es])
        qed
      qed
    next
      case ne: False
      have v: "validName e" using False ne Cons.prems(2) by (simp add: validName_def)
      have eq: "cleanElems False out (e # es) = cleanElems False (e # out) es"
        using False ne by simp
      have "cleanForm False (rev (e # out))" using cleanForm_snoc[OF po v] by simp
      then show ?thesis unfolding eq by (rule Cons.IH[OF _ es])
    qed
  qed
qed

lemma cleanElems_form:
  "cleanForm (IsAbs p) (cleanElems (IsAbs p) [] (splitSep p))"
proof (cases "IsAbs p")
  case True
  then show ?thesis using Clean_rooted_valid[OF True] by (simp add: cleanForm_rooted)
next
  case False
  have "cleanForm False (cleanElems False [] (splitSep p))"
    by (rule cleanElems_cleanForm) (auto dest: splitSep_elem_nosep)
  then show ?thesis using False by simp
qed

lemma cleanElems_dotdots:
  "out = replicate j ''..'' \<Longrightarrow>
   cleanElems False out (replicate k ''..'' @ xs) = cleanElems False (replicate (j + k) ''..'') xs"
proof (induction k arbitrary: j out)
  case 0
  then show ?case by simp
next
  case (Suc k)
  have "cleanElems False out (''..'' # replicate k ''..'' @ xs)
        = cleanElems False (replicate (Suc j) ''..'') (replicate k ''..'' @ xs)"
    using Suc.prems by (cases j) simp_all
  also have "\<dots> = cleanElems False (replicate (Suc j + k) ''..'') xs"
    by (rule Suc.IH) simp
  finally show ?case by simp
qed

lemma cleanElems_idem:
  assumes "cleanForm r X"
  shows "cleanElems r [] X = X"
proof -
  obtain k ns where f: "X = replicate k ''..'' @ ns" "\<forall>n\<in>set ns. validName n" "r \<longrightarrow> k = 0"
    using assms by (auto simp: cleanForm_def)
  show ?thesis
  proof (cases r)
    case True
    then show ?thesis using f by (simp add: cleanElems_valid)
  next
    case False
    have "cleanElems False [] (replicate k ''..'' @ ns) = cleanElems False (replicate (0 + k) ''..'') ns"
      by (rule cleanElems_dotdots) simp
    then show ?thesis using f False by (simp add: cleanElems_valid)
  qed
qed

lemma joinSep_normal_ne: "X \<noteq> [] \<Longrightarrow> \<forall>x\<in>set X. normalElem x \<Longrightarrow> joinSep X \<noteq> []"
  by (cases X rule: joinSep.cases) (auto simp: normalElem_def)

lemma joinSep_normal_hd:
  "X \<noteq> [] \<Longrightarrow> \<forall>x\<in>set X. normalElem x \<Longrightarrow> hd (joinSep X) \<noteq> Separator"
proof (cases X rule: joinSep.cases)
  case 1
  assume "X \<noteq> []" then show ?thesis using 1 by simp
next
  case (2 x)
  assume "\<forall>x\<in>set X. normalElem x"
  then have "x \<noteq> []" "Separator \<notin> set x" using 2 by (auto simp: normalElem_def)
  then show ?thesis using 2 by (cases x) auto
next
  case (3 x y ys)
  assume "\<forall>x\<in>set X. normalElem x"
  then have "x \<noteq> []" "Separator \<notin> set x" using 3 by (auto simp: normalElem_def)
  then show ?thesis using 3 by (cases x) auto
qed

lemma splitSep_joinSep_normal:
  "X \<noteq> [] \<Longrightarrow> \<forall>x\<in>set X. normalElem x \<Longrightarrow> splitSep (joinSep X) = X"
  by (simp add: splitSep_joinSep normalElem_def)

lemma render_ne [simp]: "render r X \<noteq> []"
  by (simp add: render_def)

lemma IsAbs_render:
  assumes "\<forall>x\<in>set X. normalElem x"
  shows "IsAbs (render r X) = r"
proof (cases r)
  case True
  then show ?thesis by (simp add: render_def)
next
  case False
  show ?thesis
  proof (cases "X = []")
    case True
    then show ?thesis using False by (simp add: render_def IsAbs_def HasPrefix_def Separator_def)
  next
    case ne: False
    have j: "joinSep X \<noteq> []" "hd (joinSep X) \<noteq> Separator"
      using joinSep_normal_ne[OF ne assms] joinSep_normal_hd[OF ne assms] by auto
    then have "\<not> IsAbs (joinSep X)" by (cases "joinSep X") auto
    then show ?thesis using False j by (simp add: render_def)
  qed
qed

lemma cleanElems_render:
  assumes "cleanForm r X"
  shows "cleanElems r out0 (splitSep (render r X)) = cleanElems r out0 X"
proof -
  have n: "\<forall>x\<in>set X. normalElem x" using cleanForm_normal[OF assms] .
  show ?thesis
  proof (cases "X = []")
    case True
    then show ?thesis by (cases r) (simp_all add: render_def Separator_def)
  next
    case False
    have s: "splitSep (joinSep X) = X" using splitSep_joinSep_normal[OF False n] .
    have j: "joinSep X \<noteq> []" using joinSep_normal_ne[OF False n] .
    show ?thesis using s j by (cases r) (simp_all add: render_def)
  qed
qed

lemma Clean_Clean_elems:
  "cleanElems (IsAbs p) [] (splitSep (Clean p)) = cleanElems (IsAbs p) [] (splitSep p)"
  using cleanElems_render[OF cleanElems_form[of p], of "[]"] cleanElems_idem[OF cleanElems_form[of p]]
  by (simp add: Clean_render)


lemma cleanElems_skip: "e = [] \<or> e = ''.'' \<Longrightarrow> cleanElems r out (e # es) = cleanElems r out es"
  by auto

lemma cleanElems_push:
  "e \<noteq> [] \<Longrightarrow> e \<noteq> ''.'' \<Longrightarrow> e \<noteq> ''..'' \<Longrightarrow> cleanElems r out (e # es) = cleanElems r (e # out) es"
  by simp

lemma cleanElems_pop:
  "t \<noteq> ''..'' \<Longrightarrow> cleanElems r (t # ts) (''..'' # es) = cleanElems r ts es"
  by simp

text \<open>Cleaning a relative path first and resolving it then is resolving it.\<close>

lemma cleanElems_rel_then_abs:
  "\<forall>t\<in>set o2. t \<noteq> [] \<and> t \<noteq> ''.'' \<Longrightarrow>
   cleanElems True out (cleanElems False o2 xs) = cleanElems True out (rev o2 @ xs)"
proof (induction xs arbitrary: o2)
  case Nil
  then show ?case by simp
next
  case (Cons e es)
  note inv = Cons.prems
  show ?case
  proof (cases "e = [] \<or> e = ''.''")
    case True
    have "cleanElems True out (rev o2 @ e # es)
          = cleanElems True (rev (cleanElems True out (rev o2))) (e # es)"
      by (rule cleanElems_append)
    also have "\<dots> = cleanElems True (rev (cleanElems True out (rev o2))) es"
      using True by (rule cleanElems_skip)
    also have "\<dots> = cleanElems True out (rev o2 @ es)"
      by (rule cleanElems_append[symmetric])
    finally have r: "cleanElems True out (rev o2 @ e # es) = cleanElems True out (rev o2 @ es)" .
    have "cleanElems False o2 (e # es) = cleanElems False o2 es"
      using True by (rule cleanElems_skip)
    then show ?thesis using Cons.IH[OF inv] r by simp
  next
    case False
    show ?thesis
    proof (cases "e = ''..''")
      case True
      show ?thesis
      proof (cases o2)
        case Nil
        then have "cleanElems False o2 (e # es) = cleanElems False [''..''] es"
          using True by simp
        moreover have "cleanElems True out (cleanElems False [''..''] es)
                       = cleanElems True out (rev [''..''] @ es)"
          by (rule Cons.IH) simp
        ultimately show ?thesis using Nil True by simp
      next
        case c: (Cons t ts)
        show ?thesis
        proof (cases "t = ''..''")
          case tt: True
          then have "cleanElems False o2 (e # es) = cleanElems False (e # o2) es"
            using True c by simp
          moreover have "cleanElems True out (cleanElems False (e # o2) es)
                         = cleanElems True out (rev (e # o2) @ es)"
            by (rule Cons.IH) (use inv True in auto)
          ultimately show ?thesis by simp
        next
          case tf: False
          then have l: "cleanElems False o2 (e # es) = cleanElems False ts es"
            using True c by simp
          have i: "cleanElems True out (cleanElems False ts es) = cleanElems True out (rev ts @ es)"
            by (rule Cons.IH) (use inv c in auto)
          have t: "t \<noteq> []" "t \<noteq> ''.''" using inv c by auto
          have "cleanElems True out (rev o2 @ e # es)
                = cleanElems True out (rev ts @ (t # ''..'' # es))"
            using c True by simp
          also have "\<dots> = cleanElems True (rev (cleanElems True out (rev ts))) (t # ''..'' # es)"
            by (rule cleanElems_append)
          also have "\<dots> = cleanElems True (t # rev (cleanElems True out (rev ts))) (''..'' # es)"
            using t tf by (rule cleanElems_push)
          also have "\<dots> = cleanElems True (rev (cleanElems True out (rev ts))) es"
            using tf by (rule cleanElems_pop)
          also have "\<dots> = cleanElems True out (rev ts @ es)"
            by (rule cleanElems_append[symmetric])
          finally show ?thesis using l i by simp
        qed
      qed
    next
      case ne: False
      then have "cleanElems False o2 (e # es) = cleanElems False (e # o2) es"
        using False by simp
      moreover have "cleanElems True out (cleanElems False (e # o2) es)
                     = cleanElems True out (rev (e # o2) @ es)"
        by (rule Cons.IH) (use inv False in auto)
      ultimately show ?thesis by simp
    qed
  qed
qed

section \<open>The file system: lemmas\<close>

lemma lookup_append:
  "lookup t (a @ b) = (case lookup t a of None \<Rightarrow> None | Some n \<Rightarrow> lookup n b)"
proof (induction a arbitrary: t)
  case Nil
  then show ?case by simp
next
  case (Cons c a)
  then show ?case by (cases t) (auto split: option.splits)
qed

lemma lookup_RegFile_below: "lookup (RegFile b) l = Some n \<Longrightarrow> l = []"
  by (cases l) auto

lemma lookup_prefix_dir:
  "lookup t (a @ c # b) = Some n \<Longrightarrow> \<exists>es. lookup t a = Some (Directory es)"
proof -
  assume h: "lookup t (a @ c # b) = Some n"
  then obtain m where m: "lookup t a = Some m" "lookup m (c # b) = Some n"
    by (auto simp: lookup_append split: option.splits)
  then show ?thesis by (cases m) auto
qed

lemma lookup_strict_prefix_dir:
  "lookup t l = Some n \<Longrightarrow> strict_prefix m l \<Longrightarrow> \<exists>es. lookup t m = Some (Directory es)"
proof -
  assume h: "lookup t l = Some n" and sp: "strict_prefix m l"
  then obtain c b where "l = m @ c # b"
    by (metis strict_prefixE' append.assoc append_Cons append_Nil)
  then show ?thesis using h lookup_prefix_dir by blast
qed

lemma map_of_update: "map_of (AList.update k v al) k' = (if k' = k then Some v else map_of al k')"
  by (simp add: update_conv')

lemma lookup_put_same:
  "lookup t l = Some (Directory es) \<Longrightarrow> lookup (put t (l @ [c]) v) (l @ [c]) = Some v"
proof (induction l arbitrary: t)
  case Nil
  then show ?case by (simp add: map_of_update)
next
  case (Cons x xs)
  then obtain es0 where t: "t = Directory es0" by (cases t) auto
  then obtain n where n: "map_of es0 x = Some n" "lookup n xs = Some (Directory es)"
    using Cons.prems by (auto split: option.splits)
  then show ?case using Cons.IH[of n] t by (simp add: map_of_update)
qed

lemma lookup_put_exists:
  "lookup t l = Some n \<Longrightarrow> lookup (put t l v) l = Some v"
proof (induction l arbitrary: t)
  case Nil
  then show ?case by simp
next
  case (Cons x xs)
  then obtain es0 where t: "t = Directory es0" by (cases t) auto
  then obtain k where k: "map_of es0 x = Some k" "lookup k xs = Some n"
    using Cons.prems by (auto split: option.splits)
  then show ?case using Cons.IH[of k] t by (simp add: map_of_update)
qed

lemma lookup_put_other:
  "\<not> prefix l m \<Longrightarrow> \<not> prefix m l \<Longrightarrow> lookup (put t l v) m = lookup t m"
proof (induction l arbitrary: t m)
  case Nil
  then show ?case by simp
next
  case (Cons x xs)
  then obtain y ys where m: "m = y # ys" by (cases m) auto
  show ?case
  proof (cases t)
    case (RegFile b)
    then show ?thesis by simp
  next
    case (Directory es0)
    show ?thesis
    proof (cases "y = x")
      case True
      then have np: "\<not> prefix xs ys" "\<not> prefix ys xs" using Cons.prems m by auto
      show ?thesis
      proof (cases "map_of es0 x")
        case None
        have "lookup (put (Directory []) xs v) ys = lookup (Directory []) ys"
          by (rule Cons.IH[OF np])
        moreover have "lookup (Directory []) ys = None" using np by (cases ys) auto
        ultimately show ?thesis using Directory m True None by (simp add: map_of_update)
      next
        case (Some k)
        then show ?thesis using Directory m True Cons.IH[OF np, of k]
          by (simp add: map_of_update)
      qed
    next
      case False
      then show ?thesis using Directory m by (simp add: map_of_update)
    qed
  qed
qed

lemma lookup_put_above:
  "lookup t m = Some (Directory es) \<Longrightarrow> strict_prefix m l \<Longrightarrow>
   \<exists>es'. lookup (put t l v) m = Some (Directory es')"
proof (induction l arbitrary: t m)
  case Nil
  then show ?case by simp
next
  case (Cons x xs)
  show ?case
  proof (cases m)
    case Nil
    then obtain es0 where "t = Directory es0" using Cons.prems by simp
    then show ?thesis using Nil by simp
  next
    case (Cons y ys)
    then have yx: "y = x" and sp: "strict_prefix ys xs" using Cons.prems(2) by auto
    obtain es0 where t: "t = Directory es0" using Cons.prems(1) Cons by (cases t) auto
    then obtain k where k: "map_of es0 x = Some k" "lookup k ys = Some (Directory es)"
      using Cons.prems(1) Cons yx by (auto split: option.splits)
    from Cons.IH[OF k(2) sp] obtain es' where "lookup (put k xs v) ys = Some (Directory es')"
      by blast
    then show ?thesis using t k Cons yx by (simp add: map_of_update)
  qed
qed


lemma lookup_below_none: "lookup t l = None \<Longrightarrow> lookup t (l @ m) = None"
  by (simp add: lookup_append)

lemma lookup_below_file: "lookup t l = Some (RegFile c) \<Longrightarrow> m \<noteq> [] \<Longrightarrow> lookup t (l @ m) = None"
  by (cases m) (simp_all add: lookup_append)

lemma update_same: "map_of al k = Some v \<Longrightarrow> AList.update k v al = al"
  by (induction al) auto

lemma mkdirAll_dir: "lookup t l = Some (Directory es) \<Longrightarrow> mkdirAll t l = Some t"
proof (induction l arbitrary: t)
  case Nil
  then show ?case by simp
next
  case (Cons x xs)
  then obtain es0 where t: "t = Directory es0" by (cases t) auto
  then obtain k where k: "map_of es0 x = Some k" "lookup k xs = Some (Directory es)"
    using Cons.prems by (auto split: option.splits)
  then show ?case using Cons.IH[of k] t by (simp add: update_same)
qed

lemma mkdirAll_prefix:
  "mkdirAll t l = Some t' \<Longrightarrow> prefix m l \<Longrightarrow> \<exists>es. lookup t' m = Some (Directory es)"
proof (induction l arbitrary: t t' m)
  case Nil
  then show ?case by (cases t) auto
next
  case (Cons x xs)
  then obtain es0 where t: "t = Directory es0" by (cases t) auto
  let ?k = "case map_of es0 x of None \<Rightarrow> Directory [] | Some n \<Rightarrow> n"
  obtain k' where k': "mkdirAll ?k xs = Some k'" "t' = Directory (AList.update x k' es0)"
    using Cons.prems(1) t by (auto split: option.splits)
  show ?case
  proof (cases m)
    case Nil
    then show ?thesis using k' by simp
  next
    case (Cons y ys)
    then have "y = x" "prefix ys xs" using Cons.prems(2) by auto
    then show ?thesis using Cons.IH[OF k'(1), of ys] k' Cons by (simp add: map_of_update)
  qed
qed

lemma mkdirAll_other:
  "mkdirAll t l = Some t' \<Longrightarrow> \<not> prefix m l \<Longrightarrow> lookup t' m = lookup t m"
proof (induction l arbitrary: t t' m)
  case Nil
  then show ?case by (cases t) auto
next
  case (Cons x xs)
  then obtain es0 where t: "t = Directory es0" by (cases t) auto
  let ?k = "case map_of es0 x of None \<Rightarrow> Directory [] | Some n \<Rightarrow> n"
  obtain k' where k': "mkdirAll ?k xs = Some k'" "t' = Directory (AList.update x k' es0)"
    using Cons.prems(1) t by (auto split: option.splits)
  obtain y ys where m: "m = y # ys" using Cons.prems(2) by (cases m) auto
  show ?case
  proof (cases "y = x")
    case True
    then have np: "\<not> prefix ys xs" using Cons.prems(2) m by simp
    then have ys: "ys \<noteq> []" by auto
    have "lookup k' ys = lookup ?k ys" by (rule Cons.IH[OF k'(1) np])
    moreover have "lookup (Directory []) ys = None" using ys by (cases ys) auto
    ultimately show ?thesis using t k' m True
      by (auto simp: map_of_update split: option.splits)
  next
    case False
    then show ?thesis using t k' m by (simp add: map_of_update)
  qed
qed

lemma mkdirAll_prefix_before:
  "mkdirAll t l = Some t' \<Longrightarrow> prefix m l \<Longrightarrow> lookup t m = Some n \<Longrightarrow> isDirectory n"
proof (induction l arbitrary: t t' m n)
  case Nil
  then show ?case by (cases t) auto
next
  case (Cons x xs)
  then obtain es0 where t: "t = Directory es0" by (cases t) auto
  let ?k = "case map_of es0 x of None \<Rightarrow> Directory [] | Some n \<Rightarrow> n"
  obtain k' where k': "mkdirAll ?k xs = Some k'"
    using Cons.prems(1) t by (auto split: option.splits)
  show ?case
  proof (cases m)
    case Nil
    then show ?thesis using Cons.prems(3) t by auto
  next
    case (Cons y ys)
    then have yx: "y = x" "prefix ys xs" using Cons.prems(2) by auto
    then obtain k where "map_of es0 x = Some k" "lookup k ys = Some n"
      using Cons.prems(3) t Cons by (auto split: option.splits)
    then show ?thesis using Cons.IH[OF _ yx(2), of k k' n] k' by simp
  qed
qed

lemma mkdirAll_file_iff:
  assumes "mkdirAll t l = Some t'"
  shows "lookup t' m = Some (RegFile c) \<longleftrightarrow> lookup t m = Some (RegFile c)"
proof (cases "prefix m l")
  case True
  then show ?thesis
    using mkdirAll_prefix[OF assms True] mkdirAll_prefix_before[OF assms True, of "RegFile c"]
    by auto
next
  case False
  then show ?thesis using mkdirAll_other[OF assms False] by simp
qed

lemma mkdirAll_keeps_dir:
  assumes "mkdirAll t l = Some t'" and "lookup t m = Some (Directory es)"
  shows "\<exists>es'. lookup t' m = Some (Directory es')"
proof (cases "prefix m l")
  case True
  then show ?thesis using mkdirAll_prefix[OF assms(1) True] by simp
next
  case False
  then show ?thesis using mkdirAll_other[OF assms(1) False] assms(2) by simp
qed

lemma writable_above:
  assumes "writable t L" and "strict_prefix m L"
  shows "\<exists>es. lookup t m = Some (Directory es)"
proof -
  from assms(1) show ?thesis unfolding writable_def
  proof (elim disjE exE conjE)
    fix c assume "lookup t L = Some (RegFile c)"
    then show ?thesis using lookup_strict_prefix_dir[OF _ assms(2)] by blast
  next
    fix l b es assume L: "L = l @ [b]" and d: "lookup t l = Some (Directory es)"
    then have "prefix m l" using assms(2) by (metis prefix_order.less_le prefix_snoc)
    then show ?thesis
    proof (cases "m = l")
      case True
      then show ?thesis using d by simp
    next
      case False
      then have "strict_prefix m l" using \<open>prefix m l\<close> by (simp add: strict_prefix_def)
      then show ?thesis using lookup_strict_prefix_dir[OF d] by blast
    qed
  qed
qed

lemma writable_below:
  assumes "writable t L" and "strict_prefix L m"
  shows "lookup t m = None"
proof -
  obtain r where m: "m = L @ r" "r \<noteq> []" using assms(2)
    by (metis strict_prefixE' append_Cons list.distinct(1))
  show ?thesis
  proof (cases "lookup t L")
    case None
    then show ?thesis using m(1) by (simp add: lookup_below_none)
  next
    case (Some n)
    then obtain c where "lookup t L = Some (RegFile c)"
      using assms(1) by (auto simp: writable_def)
    then show ?thesis using m by (simp add: lookup_below_file)
  qed
qed

lemma put_file_same:
  assumes "writable t L"
  shows "lookup (put t L v) L = Some v"
  using assms unfolding writable_def
  by (auto simp: lookup_put_same lookup_put_exists)

lemma put_file_other:
  "\<not> prefix m L \<Longrightarrow> writable t L \<Longrightarrow> lookup (put t L (RegFile x)) m = lookup t m"
proof (cases "prefix L m")
  case True
  assume np: "\<not> prefix m L" and w: "writable t L"
  then have sp: "strict_prefix L m" using True by (auto simp: strict_prefix_def)
  then obtain r where m: "m = L @ r" "r \<noteq> []"
    by (metis strict_prefixE' append_Cons list.distinct(1))
  have "lookup (put t L (RegFile x)) m = None"
    using put_file_same[OF w, of "RegFile x"] m by (simp add: lookup_below_file)
  then show ?thesis using writable_below[OF w sp] by simp
next
  case False
  assume "\<not> prefix m L"
  then show ?thesis using False by (simp add: lookup_put_other)
qed

lemma put_file_keeps_dir:
  assumes "writable t L" and "lookup t m = Some (Directory es)"
  shows "\<exists>es'. lookup (put t L (RegFile x)) m = Some (Directory es')"
proof (cases "prefix m L")
  case True
  have "m \<noteq> L" using assms unfolding writable_def by auto
  then have "strict_prefix m L" using True by (simp add: strict_prefix_def)
  then show ?thesis using lookup_put_above[OF assms(2)] by blast
next
  case False
  then show ?thesis using put_file_other[OF False assms(1)] assms(2) by simp
qed

lemma put_file_file_iff:
  assumes "writable t L" and "m \<noteq> L"
  shows "lookup (put t L (RegFile x)) m = Some (RegFile c) \<longleftrightarrow> lookup t m = Some (RegFile c)"
proof (cases "prefix m L")
  case True
  then have sp: "strict_prefix m L" using assms(2) by (simp add: strict_prefix_def)
  obtain es where d: "lookup t m = Some (Directory es)" using writable_above[OF assms(1) sp] by blast
  obtain es' where "lookup (put t L (RegFile x)) m = Some (Directory es')"
    using lookup_put_above[OF d sp] by blast
  then show ?thesis using d by simp
next
  case False
  then show ?thesis using put_file_other[OF False assms(1)] by simp
qed

lemma writable_put: "writable t L \<Longrightarrow> writable (put t L (RegFile x)) L"
  using put_file_same[of t L "RegFile x"] by (auto simp: writable_def)

section \<open>Operations: lemmas\<close>

lemma backupFile_parts:
  "backupFile e s src dst =
     (case ensureDstOutsideSrc e src dst of
        Inl x \<Rightarrow> (Inl x, s)
      | Inr _ \<Rightarrow>
          (case effectiveDst e s src dst of
             Inl x \<Rightarrow> (Inl x, s)
           | Inr dst' \<Rightarrow> copyTo e s src dst'))"
  unfolding backupFile_def effectiveDst_def copyTo_def copyOpened_def by (rule refl)

lemma MkdirAll_opened [simp]: "opened (snd (MkdirAll e s p)) = opened s"
  by (auto simp: MkdirAll_def split: option.splits)

lemma Open_Inl: "Open e s p = (Inl x, s') \<Longrightarrow> s' = s"
  by (auto simp: Open_def split: option.splits sum.splits)

lemma Open_Inr:
  "Open e s p = (Inr h, s') \<Longrightarrow>
   s' = s\<lparr>opened := h # opened s\<rparr> \<and> fst h = p \<and> (\<exists>n. resolve e s p = Inr (snd h, n))"
  by (auto simp: Open_def split: option.splits sum.splits)

lemma Create_Inl: "Create e s p = (Inl x, s') \<Longrightarrow> s' = s"
  by (auto simp: Create_def Let_def split: option.splits sum.splits node.splits if_splits)

lemma Create_Inr:
  "Create e s p = (Inr h, s') \<Longrightarrow>
   s' = \<lparr>root = put (root s) (snd h) (RegFile []), opened = h # opened s\<rparr> \<and> fst h = p"
  by (auto simp: Create_def Let_def split: option.splits sum.splits node.splits if_splits)

lemma Copy_opened [simp]: "opened (snd (Copy e s d f)) = opened s"
  by (auto simp: Copy_def split: option.splits node.splits)

lemma Sync_state [simp]: "snd (Sync e s f) = s"
  by (auto simp: Sync_def split: option.splits)

lemma Close_opened [simp]: "opened (snd (Close e s f)) = remove1 f (opened s)"
  by (auto simp: Close_def split: option.splits)

lemma Close_root [simp]: "root (snd (Close e s f)) = root s"
  by (auto simp: Close_def split: option.splits)

lemma deferred_one [simp]:
  "fst (deferred e [h] r) = fst r"
  "opened (snd (deferred e [h] r)) = remove1 h (opened (snd r))"
  "root (snd (deferred e [h] r)) = root (snd r)"
  by (simp_all add: deferred_def)

lemma copyOpened_opened: "opened (snd (copyOpened e s f p)) = opened s"
proof (cases "Create e s p")
  case (Pair r s3)
  show ?thesis
  proof (cases r)
    case (Inl x)
    then show ?thesis using Pair Create_Inl[of e s p x s3] by (simp add: copyOpened_def)
  next
    case (Inr h)
    then have s3: "opened s3 = h # opened s" using Pair Create_Inr[of e s p h s3] by auto
    obtain r4 s4 where c: "Copy e s3 h f = (r4, s4)" by fastforce
    then have "opened s4 = h # opened s" using Copy_opened[of e s3 h f] s3 by simp
    then show ?thesis using Pair Inr c
      by (cases r4) (simp_all add: copyOpened_def)
  qed
qed

lemma copyTo_opened: "opened (snd (copyTo e s src p)) = opened s"
proof (cases "MkdirAll e s (Dir p)")
  case (Pair r1 s1)
  then have o1: "opened s1 = opened s" using MkdirAll_opened[of e s "Dir p"] by simp
  show ?thesis
  proof (cases r1)
    case (Inl x)
    then show ?thesis using Pair o1 by (simp add: copyTo_def)
  next
    case (Inr u)
    obtain r2 s2 where op: "Open e s1 src = (r2, s2)" by fastforce
    show ?thesis
    proof (cases r2)
      case (Inl x)
      then show ?thesis using Pair Inr op o1 Open_Inl[of e s1 src x s2] by (simp add: copyTo_def)
    next
      case h: (Inr h)
      then have "opened s2 = h # opened s" using op o1 Open_Inr[of e s1 src h s2] by auto
      then show ?thesis using Pair Inr op h by (simp add: copyTo_def copyOpened_opened)
    qed
  qed
qed

lemma walkElems_loc:
  "walkElems t cur es = Inr l \<Longrightarrow> \<forall>c\<in>set cur. c \<noteq> ''..'' \<Longrightarrow>
   cleanElems True (rev cur) es = l"
proof (induction es arbitrary: cur)
  case Nil
  then show ?case by simp
next
  case (Cons x xs)
  obtain ents where d: "lookup t cur = Some (Directory ents)"
    using Cons.prems(1) by (auto split: option.splits node.splits)
  show ?case
  proof (cases "x = [] \<or> x = ''.''")
    case True
    then have "walkElems t cur xs = Inr l" using Cons.prems(1) d by auto
    then have "cleanElems True (rev cur) xs = l" by (rule Cons.IH) (rule Cons.prems(2))
    then show ?thesis using True by auto
  next
    case False
    show ?thesis
    proof (cases "x = ''..''")
      case True
      then have w: "walkElems t (butlast cur) xs = Inr l" using Cons.prems(1) d by simp
      have "\<forall>c\<in>set (butlast cur). c \<noteq> ''..''"
        using Cons.prems(2) by (auto dest: in_set_butlastD)
      then have i: "cleanElems True (rev (butlast cur)) xs = l" by (rule Cons.IH[OF w])
      show ?thesis
      proof (cases cur rule: rev_cases)
        case Nil
        then show ?thesis using i True by simp
      next
        case (snoc ys y)
        then have "y \<noteq> ''..''" using Cons.prems(2) by simp
        then show ?thesis using i True snoc by simp
      qed
    next
      case ne: False
      then have w: "walkElems t (cur @ [x]) xs = Inr l"
        using Cons.prems(1) d False by (auto split: option.splits)
      have "\<forall>c\<in>set (cur @ [x]). c \<noteq> ''..''" using Cons.prems(2) ne by simp
      then have "cleanElems True (rev (cur @ [x])) xs = l" by (rule Cons.IH[OF w])
      then show ?thesis using False ne by simp
    qed
  qed
qed

lemma resolve_loc:
  assumes "resolve e s p = Inr (l, n)" and "validEnv e"
  shows "l = locOf e p \<and> lookup (root s) l = Some n"
proof -
  have ne: "p \<noteq> []" using assms(1) by (auto simp: resolve_def)
  let ?st = "if IsAbs p then [] else cwd e"
  have w: "walkElems (root s) ?st (splitSep p) = Inr l" and lk: "lookup (root s) l = Some n"
    using assms(1) ne by (auto simp: resolve_def split: sum.splits option.splits)
  have "\<forall>c\<in>set ?st. c \<noteq> ''..''" using assms(2) by (auto simp: validEnv_def validName_def)
  from walkElems_loc[OF w this] have "l = locOf e p" by (auto simp: locOf_def)
  then show ?thesis using lk by simp
qed

lemma path_split:
  fixes p :: path
  defines "d \<equiv> rev (dropWhile (\<lambda>c. c \<noteq> Separator) (rev p))"
    and "b \<equiv> rev (takeWhile (\<lambda>c. c \<noteq> Separator) (rev p))"
  shows "p = d @ b" and "Separator \<notin> set b" and "d = [] \<or> (\<exists>d0. d = d0 @ [Separator])"
proof -
  have "rev p = takeWhile (\<lambda>c. c \<noteq> Separator) (rev p) @ dropWhile (\<lambda>c. c \<noteq> Separator) (rev p)"
    by simp
  then have "rev (rev p) =
      rev (takeWhile (\<lambda>c. c \<noteq> Separator) (rev p) @ dropWhile (\<lambda>c. c \<noteq> Separator) (rev p))"
    by (rule arg_cong)
  then show "p = d @ b" by (simp only: rev_rev_ident rev_append d_def b_def)
  show "Separator \<notin> set b" using set_takeWhileD[of Separator "\<lambda>c. c \<noteq> Separator" "rev p"]
    by (auto simp: b_def)
  show "d = [] \<or> (\<exists>d0. d = d0 @ [Separator])"
  proof (cases "dropWhile (\<lambda>c. c \<noteq> Separator) (rev p)")
    case Nil
    then show ?thesis by (simp add: d_def)
  next
    case (Cons x xs)
    then have "x = Separator" using hd_dropWhile[of "\<lambda>c. c \<noteq> Separator" "rev p"] by auto
    then show ?thesis using Cons by (simp add: d_def)
  qed
qed

lemma IsAbs_append: "p \<noteq> [] \<Longrightarrow> IsAbs (p @ q) = IsAbs p"
  by (cases p) auto

lemma locOf_dot [simp]: "locOf e ''.'' = cwd e"
  by (simp add: locOf_def IsAbs_def HasPrefix_def Separator_def)

lemma cleanElems_snoc_valid:
  "validName b \<Longrightarrow> cleanElems r out (xs @ [b]) = cleanElems r out xs @ [b]"
  by (simp add: cleanElems_append validName_def)

lemma cleanElems_snoc_empty: "cleanElems r out (xs @ [[]]) = cleanElems r out xs"
  by (simp add: cleanElems_append)

lemma cleanElems_single_valid: "validName b \<Longrightarrow> cleanElems r out [b] = rev out @ [b]"
  by (simp add: validName_def)

lemma locOf_child:
  assumes "validName b" and "d = [] \<or> (\<exists>d0. d = d0 @ [Separator])"
  shows "locOf e (d @ b) = locOf e (if d = [] then ''.'' else d) @ [b]"
proof (cases "d = []")
  case True
  have "\<not> IsAbs b" using assms(1) by (cases b) (auto simp: validName_def)
  then have "locOf e b = cwd e @ [b]" using assms(1)
    by (simp add: locOf_def splitSep_nosep validName_nosep cleanElems_single_valid
        del: cleanElems.simps)
  then show ?thesis using True by simp
next
  case False
  then obtain d0 where d: "d = d0 @ [Separator]" using assms(2) by auto
  have a: "IsAbs (d @ b) = IsAbs d" using False by (rule IsAbs_append)
  have s1: "splitSep (d @ b) = splitSep d0 @ [b]"
    using d assms(1) by (simp add: splitSep_append_sep splitSep_nosep validName_nosep)
  have s2: "splitSep d = splitSep d0 @ [[]]"
    using d by (simp add: splitSep_append_sep)
  show ?thesis using False a assms(1)
    by (simp add: locOf_def s1 s2 cleanElems_snoc_valid cleanElems_snoc_empty
        del: cleanElems.simps)
qed

lemma Create_Inr_loc:
  assumes "Create e s p = (Inr h, s')" and "validEnv e"
  shows "h = (p, locOf e p) \<and> writable (root s) (locOf e p) \<and>
         s' = \<lparr>root = put (root s) (locOf e p) (RegFile []), opened = h # opened s\<rparr>"
proof (cases "resolve e s p")
  case (Inr ln)
  then obtain l c where ln: "ln = (l, RegFile c)"
    using assms(1) by (cases ln) (auto simp: Create_def split: option.splits node.splits)
  then have l: "l = locOf e p" "lookup (root s) l = Some (RegFile c)"
    using resolve_loc[OF _ assms(2)] Inr by auto
  then show ?thesis using assms(1) Inr ln
    by (auto simp: Create_def writable_def split: option.splits)
next
  case (Inl n)
  define d where "d = rev (dropWhile (\<lambda>c. c \<noteq> Separator) (rev p))"
  define b where "b = rev (takeWhile (\<lambda>c. c \<noteq> Separator) (rev p))"
  have ps: "p = d @ b" "Separator \<notin> set b" "d = [] \<or> (\<exists>d0. d = d0 @ [Separator])"
    using path_split[of p] by (simp_all add: d_def b_def)
  have nf: "fault e OpCreate p = None" using assms(1) by (auto simp: Create_def split: option.splits)
  have b: "b \<noteq> []" "b \<noteq> ''.''" "b \<noteq> ''..''" and n: "n = ENOENT"
    using assms(1) Inl nf
    by (auto simp: Create_def Let_def d_def[symmetric] b_def[symmetric] split: if_splits)
  then have vb: "validName b" using ps(2) by (simp add: validName_def)
  obtain l ents where r: "resolve e s (if d = [] then ''.'' else d) = Inr (l, Directory ents)"
    and m: "map_of ents b = None" and h: "h = (p, l @ [b])"
    and s': "s' = \<lparr>root = put (root s) (l @ [b]) (RegFile []), opened = (p, l @ [b]) # opened s\<rparr>"
    using assms(1) Inl nf b n
    by (auto simp: Create_def Let_def d_def[symmetric] b_def[symmetric]
        split: if_splits sum.splits node.splits option.splits)
  have l: "l = locOf e (if d = [] then ''.'' else d)" "lookup (root s) l = Some (Directory ents)"
    using resolve_loc[OF r assms(2)] by auto
  have lp: "locOf e p = l @ [b]" using locOf_child[OF vb ps(3), of e] ps(1) l(1) by simp
  have "lookup (root s) (l @ [b]) = None" using l(2) m by (simp add: lookup_append)
  then have "writable (root s) (l @ [b])" using l(2) by (auto simp: writable_def)
  then show ?thesis using lp h s' by simp
qed

lemma Copy_Inr:
  "Copy e s d f = (Inr k, s') \<Longrightarrow>
   \<exists>bytes. lookup (root s) (snd f) = Some (RegFile bytes) \<and>
     s' = s\<lparr>root := put (root s) (snd d) (RegFile bytes)\<rparr>"
  by (auto simp: Copy_def split: option.splits node.splits)

lemma MkdirAll_Inl: "MkdirAll e s p = (Inl x, s') \<Longrightarrow> s' = s"
  by (auto simp: MkdirAll_def split: option.splits)

lemma MkdirAll_Inr:
  "MkdirAll e s p = (Inr u, s') \<Longrightarrow>
   mkdirAll (root s) (locOf e p) = Some (root s') \<and> s' = s\<lparr>root := root s'\<rparr>"
  by (auto simp: MkdirAll_def split: option.splits)

lemma copyOpened_Inr:
  assumes "copyOpened e s2 h p = (Inr u, s')" and "validEnv e"
  shows "\<exists>bytes. writable (root s2) (locOf e p) \<and>
           lookup (put (root s2) (locOf e p) (RegFile [])) (snd h) = Some (RegFile bytes) \<and>
           root s' = put (put (root s2) (locOf e p) (RegFile [])) (locOf e p) (RegFile bytes) \<and>
           opened s' = opened s2"
proof -
  obtain r3 s3 where c: "Create e s2 p = (r3, s3)" by fastforce
  show ?thesis
  proof (cases r3)
    case (Inl x)
    then show ?thesis using assms(1) c by (simp add: copyOpened_def)
  next
    case (Inr hd)
    then have cr: "hd = (p, locOf e p)" "writable (root s2) (locOf e p)"
      "s3 = \<lparr>root = put (root s2) (locOf e p) (RegFile []), opened = hd # opened s2\<rparr>"
      using Create_Inr_loc[OF _ assms(2), of s2 p hd s3] c by auto
    obtain r4 s4 where cp: "Copy e s3 hd h = (r4, s4)" by fastforce
    show ?thesis
    proof (cases r4)
      case (Inl x)
      then have "fst (copyOpened e s2 h p) = Inl (Wrap ''failed to copy file'' x)"
        using c Inr cp by (simp add: copyOpened_def)
      then show ?thesis using assms(1) by simp
    next
      case k: (Inr k)
      then obtain bytes where b: "lookup (root s3) (snd h) = Some (RegFile bytes)"
        "s4 = s3\<lparr>root := put (root s3) (snd hd) (RegFile bytes)\<rparr>"
        using Copy_Inr[of e s3 hd h k s4] cp by auto
      have res: "copyOpened e s2 h p = deferred e [hd] (Sync e s4 hd)"
        using c Inr cp k by (simp add: copyOpened_def)
      have "s' = snd (copyOpened e s2 h p)" using assms(1) by simp
      then have "s' = snd (deferred e [hd] (Sync e s4 hd))" by (simp only: res)
      then have "root s' = root s4" "opened s' = remove1 hd (opened s4)" by simp_all
      then show ?thesis using b cr by (intro exI[of _ bytes]) simp
    qed
  qed
qed

lemma copyTo_Inr:
  assumes "copyTo e s src p = (Inr u, s')" and "validEnv e"
  shows "\<exists>t1 bytes. mkdirAll (root s) (locOf e (Dir p)) = Some t1 \<and>
           writable t1 (locOf e p) \<and>
           lookup (root s) (locOf e src) = Some (RegFile bytes) \<and>
           root s' = put (put t1 (locOf e p) (RegFile [])) (locOf e p)
                       (RegFile (if locOf e p = locOf e src then [] else bytes)) \<and>
           opened s' = opened s"
proof -
  obtain r1 s1 where m: "MkdirAll e s (Dir p) = (r1, s1)" by fastforce
  show ?thesis
  proof (cases r1)
    case (Inl x)
    then show ?thesis using assms(1) m by (simp add: copyTo_def)
  next
    case (Inr u1)
    then have mk: "mkdirAll (root s) (locOf e (Dir p)) = Some (root s1)"
      and o1: "opened s1 = opened s"
      using MkdirAll_Inr[of e s "Dir p" u1 s1] m MkdirAll_opened[of e s "Dir p"] by auto
    obtain r2 s2 where op: "Open e s1 src = (r2, s2)" by fastforce
    show ?thesis
    proof (cases r2)
      case (Inl x)
      then show ?thesis using assms(1) m Inr op by (simp add: copyTo_def)
    next
      case h: (Inr h)
      then obtain n where s2: "s2 = s1\<lparr>opened := h # opened s1\<rparr>"
        and rs: "resolve e s1 src = Inr (snd h, n)"
        using Open_Inr[of e s1 src h s2] op by auto
      have L: "snd h = locOf e src" "lookup (root s1) (locOf e src) = Some n"
        using resolve_loc[OF rs assms(2)] by auto
      have res: "copyTo e s src p = deferred e [h] (copyOpened e s2 h p)"
        using m Inr op h by (simp add: copyTo_def)
      obtain s3 where co: "copyOpened e s2 h p = (Inr u, s3)"
        using res assms(1) by (cases "copyOpened e s2 h p") (auto simp: deferred_def)
      from copyOpened_Inr[OF co assms(2)] obtain bytes where
        w: "writable (root s2) (locOf e p)" and
        b: "lookup (put (root s2) (locOf e p) (RegFile [])) (snd h) = Some (RegFile bytes)" and
        r3: "root s3 = put (put (root s2) (locOf e p) (RegFile [])) (locOf e p) (RegFile bytes)" and
        o3: "opened s3 = opened s2"
        by blast
      have rt: "root s2 = root s1" using s2 by simp
      have "s' = snd (copyTo e s src p)" using assms(1) by simp
      then have "s' = snd (deferred e [h] (Inr u, s3))" by (simp only: res co)
      then have s': "root s' = root s3" "opened s' = remove1 h (opened s3)" by simp_all
      show ?thesis
      proof (cases "locOf e p = locOf e src")
        case True
        then have "bytes = []" using b w L(1) put_file_same[OF w, of "RegFile []"] by simp
        moreover obtain c where "lookup (root s1) (locOf e src) = Some (RegFile c)"
          using w L(2) True rt by (auto simp: writable_def)
        then have "lookup (root s) (locOf e src) = Some (RegFile c)"
          using mkdirAll_file_iff[OF mk] by simp
        ultimately show ?thesis using mk w rt r3 s' o3 s2 o1 True by auto
      next
        case False
        then have "lookup (root s1) (locOf e src) = Some (RegFile bytes)"
          using b L(1) rt put_file_file_iff[OF w, of "locOf e src" "[]" bytes] by auto
        then have "lookup (root s) (locOf e src) = Some (RegFile bytes)"
          using mkdirAll_file_iff[OF mk] by simp
        then show ?thesis using mk w rt r3 s' o3 s2 o1 False by auto
      qed
    qed
  qed
qed

lemma put_put_lookup:
  assumes "writable t L"
  shows "lookup (put (put t L (RegFile [])) L (RegFile b)) L = Some (RegFile b)"
  using put_file_same[OF writable_put[OF assms]] by simp

lemma locOf_render:
  assumes "cleanForm r X"
  shows "locOf e (render r X) = cleanElems True (if r then [] else rev (cwd e)) X"
proof -
  have n: "\<forall>x\<in>set X. normalElem x" using cleanForm_normal[OF assms] .
  have a: "IsAbs (render r X) = r" using IsAbs_render[OF n] .
  show ?thesis
  proof (cases "X = []")
    case True
    then show ?thesis by (cases r) (simp_all add: locOf_def render_def Separator_def IsAbs_def HasPrefix_def)
  next
    case False
    have s: "splitSep (joinSep X) = X" using splitSep_joinSep_normal[OF False n] .
    have j: "joinSep X \<noteq> []" using joinSep_normal_ne[OF False n] .
    show ?thesis
    proof (cases r)
      case True
      then have "locOf e (render r X) = cleanElems True [] ([] # splitSep (joinSep X))"
        by (simp add: locOf_def render_def)
      then show ?thesis using s True by simp
    next
      case fl: False
      then have "render r X = joinSep X" using j by (simp add: render_def)
      then show ?thesis using a fl s by (simp add: locOf_def)
    qed
  qed
qed

lemma locOf_Clean: "locOf e (Clean p) = locOf e p"
proof (cases "IsAbs p")
  case True
  have "locOf e (Clean p) = cleanElems True [] (cleanElems True [] (splitSep p))"
    using locOf_render[OF cleanElems_form[of p], of e] True by (simp add: Clean_render)
  also have "\<dots> = cleanElems True [] (splitSep p)"
    using Clean_rooted_valid[OF True] by (simp add: cleanElems_valid)
  finally show ?thesis using True by (simp add: locOf_def)
next
  case False
  have "locOf e (Clean p) = cleanElems True (rev (cwd e)) (cleanElems False [] (splitSep p))"
    using locOf_render[OF cleanElems_form[of p], of e] False by (simp add: Clean_render)
  also have "\<dots> = cleanElems True (rev (cwd e)) (rev [] @ splitSep p)"
    by (rule cleanElems_rel_then_abs) simp
  finally show ?thesis using False by (simp add: locOf_def)
qed

lemma locOf_Nil [simp]: "locOf e [] = cwd e"
  by (simp add: locOf_def)

lemma locOf_append_sep:
  assumes "p \<noteq> []"
  shows "locOf e (p @ Separator # b) = cleanElems True (rev (locOf e p)) (splitSep b)"
proof -
  have "IsAbs (p @ Separator # b) = IsAbs p" using assms by (rule IsAbs_append)
  then show ?thesis by (simp add: locOf_def splitSep_append_sep cleanElems_append)
qed

lemma locOf_Join2:
  assumes "p \<noteq> [] \<or> \<not> IsAbs b"
  shows "locOf e (Join [p, b]) = cleanElems True (rev (locOf e p)) (splitSep b)"
proof (cases "p = []")
  case True
  then have nb: "\<not> IsAbs b" using assms by simp
  show ?thesis
  proof (cases "b = []")
    case True
    then show ?thesis using \<open>p = []\<close> by (simp add: Join_def)
  next
    case False
    then have "Join [p, b] = Clean b" using True by (simp add: Join_def)
    then show ?thesis using True nb by (simp add: locOf_Clean) (simp add: locOf_def)
  qed
next
  case False
  then have "Join [p, b] = Clean (p @ Separator # b)" by (simp add: Join_def)
  then show ?thesis using locOf_append_sep[OF False] by (simp add: locOf_Clean)
qed

lemma locOf_Join_name:
  "validName n \<Longrightarrow> locOf e (Join [p, n]) = locOf e p @ [n]"
proof -
  assume v: "validName n"
  then have "\<not> IsAbs n" by (cases n) (auto simp: validName_def)
  then have "locOf e (Join [p, n]) = cleanElems True (rev (locOf e p)) (splitSep n)"
    by (intro locOf_Join2) simp
  then show ?thesis using v
    by (simp add: splitSep_nosep validName_nosep cleanElems_single_valid del: cleanElems.simps)
qed

lemma locOf_valid:
  assumes "validEnv e"
  shows "\<forall>n\<in>set (locOf e p). validName n"
  unfolding locOf_def
  by (rule cleanElems_rooted_valid) (use assms in \<open>auto simp: validEnv_def dest: splitSep_elem_nosep\<close>)

lemma Abs_locOf:
  assumes "Abs e p = Inr a" and "validEnv e"
  shows "a = Separator # joinSep (locOf e p)"
proof (cases "IsAbs p")
  case True
  then show ?thesis using assms(1) by (simp add: Abs_def Clean_rooted locOf_def)
next
  case False
  then obtain wd where wd: "Getwd e = Inr wd" and a: "a = Join [wd, p]"
    using assms(1) by (auto simp: Abs_def split: sum.splits)
  have w: "wd = Separator # joinSep (cwd e)"
    using wd by (auto simp: Getwd_def split: option.splits)
  have cw: "\<forall>n\<in>set (cwd e). validName n" using assms(2) by (simp add: validEnv_def)
  have ab: "IsAbs (wd @ Separator # p)" using w by simp
  have "a = Clean (wd @ Separator # p)" using a w by (simp add: Join_def)
  then have "a = Separator # joinSep (cleanElems True [] (splitSep (wd @ Separator # p)))"
    using ab by (simp add: Clean_rooted)
  also have "cleanElems True [] (splitSep (wd @ Separator # p))
             = cleanElems True (rev (cleanElems True [] (splitSep wd))) (splitSep p)"
    by (simp add: splitSep_append_sep cleanElems_append)
  also have "cleanElems True [] (splitSep wd) = cwd e"
    unfolding w by (rule cleanElems_rooted_form[OF cw])
  finally show ?thesis using False by (simp add: locOf_def)
qed

lemma Abs_Inl_iff: "(\<exists>x. Abs e p = Inl x) \<longleftrightarrow> (\<not> IsAbs p \<and> fault e OpGetwd [] \<noteq> None)"
  by (auto simp: Abs_def Getwd_def split: sum.splits option.splits)

lemma guard_outside:
  assumes "Abs e p = Inr a" and "Abs e p' = Inr d" and "validEnv e"
    and "\<not> prefix (locOf e p) (locOf e p')"
  shows "ensureDstOutsideSrc e p p' = Inr ()"
proof -
  have a: "a = Separator # joinSep (locOf e p)" using Abs_locOf[OF assms(1,3)] .
  have d: "d = Separator # joinSep (locOf e p')" using Abs_locOf[OF assms(2,3)] .
  from Rel_rooted_outside[OF locOf_valid[OF assms(3)] locOf_valid[OF assms(3)] assms(4)]
  obtain k ts where "Rel a d = Inr (joinSep (''..'' # replicate k ''..'' @ ts))"
    using a d by auto
  then show ?thesis
    using assms(1,2) joinSep_dotdot_prefix[of "replicate k ''..'' @ ts"]
    by (simp add: ensureDstOutsideSrc_def)
qed

lemma validEnv_quiet: "validEnv (quiet [''w''])"
  by (simp add: validEnv_def quiet_def validName_def Separator_def)

lemma validEnv_deny: "validEnv (deny op p)"
  by (simp add: validEnv_def deny_def validName_def Separator_def)

lemma Rel_self: "Rel p p = Inr ''.''"
  by (simp add: Rel_def)

lemma Clean_ne [simp]: "Clean p \<noteq> []"
  by (simp add: Clean_render)

lemma Join2_ne: "b \<noteq> [] \<Longrightarrow> Join [p, b] \<noteq> []"
  by (cases "p = []") (simp_all add: Join_def)

lemma locOf_Join_dot: "locOf e (Join [p, ''.'']) = locOf e p"
proof -
  have "\<not> IsAbs ''.''" by (simp add: Separator_def)
  then have "locOf e (Join [p, ''.'']) = cleanElems True (rev (locOf e p)) (splitSep ''.'')"
    by (intro locOf_Join2) simp
  then show ?thesis by (simp add: Separator_def)
qed

lemma Stat_Inr:
  assumes "Stat e s p = Inr i" and "validEnv e"
  shows "\<exists>n. lookup (root s) (locOf e p) = Some n \<and> i = FileInfo (isDirectory n) \<and> p \<noteq> []"
proof -
  obtain l n where r: "resolve e s p = Inr (l, n)" and i: "i = FileInfo (isDirectory n)"
    using assms(1) by (auto simp: Stat_def split: option.splits sum.splits)
  have "p \<noteq> []" using r by (auto simp: resolve_def)
  then show ?thesis using resolve_loc[OF r assms(2)] i by auto
qed

lemma Lstat_Inr:
  assumes "Lstat e s p = Inr i" and "validEnv e"
  shows "\<exists>n. lookup (root s) (locOf e p) = Some n \<and> i = FileInfo (isDirectory n) \<and> p \<noteq> []"
proof -
  obtain l n where r: "resolve e s p = Inr (l, n)" and i: "i = FileInfo (isDirectory n)"
    using assms(1) by (auto simp: Lstat_def split: option.splits sum.splits)
  have "p \<noteq> []" using r by (auto simp: resolve_def)
  then show ?thesis using resolve_loc[OF r assms(2)] i by auto
qed

lemma writable_not_dir: "writable t L \<Longrightarrow> lookup t L \<noteq> Some (Directory es)"
  by (auto simp: writable_def)

lemma backupFile_Inr:
  assumes "backupFile e s src p = (Inr u, s')"
  shows "\<exists>pe. effectiveDst e s src p = Inr pe \<and> copyTo e s src pe = (Inr u, s')"
  using assms by (auto simp: backupFile_parts split: sum.splits)

lemma effectiveDst_cases:
  assumes "effectiveDst e s src p = Inr pe"
  shows "(Stat e s p = Inr (FileInfo True) \<and> pe = Join [p, Base src]) \<or>
         (Stat e s p \<noteq> Inr (FileInfo True) \<and> pe = p)"
proof (cases "Stat e s p")
  case (Inl x)
  then show ?thesis using assms by (auto simp: effectiveDst_def split: if_splits)
next
  case (Inr i)
  then show ?thesis using assms by (cases i) (auto simp: effectiveDst_def split: if_splits)
qed

lemma lookup_prefix_exists:
  assumes "lookup t D = Some n" and "prefix L D"
  shows "lookup t L \<noteq> None"
proof -
  obtain r where "D = L @ r" using assms(2) by (auto simp: prefix_def)
  then show ?thesis using assms(1) by (auto simp: lookup_append split: option.splits)
qed

lemma Base_cases: "Base p = [Separator] \<or> Separator \<notin> set (Base p)"
proof (cases "p = []")
  case True
  then show ?thesis by (simp add: Base_def Separator_def)
next
  case False
  let ?q = "rev (dropWhile (\<lambda>c. c = Separator) (rev p))"
  have "Separator \<notin> set (rev (takeWhile (\<lambda>c. c \<noteq> Separator) (rev ?q)))"
    using set_takeWhileD[of Separator "\<lambda>c. c \<noteq> Separator" "rev ?q"] by auto
  then show ?thesis using False by (auto simp: Base_def Let_def)
qed

lemma locOf_Dir: "locOf e (Dir p) = locOf e (rev (dropWhile (\<lambda>c. c \<noteq> Separator) (rev p)))"
  by (simp add: Dir_def locOf_Clean)

lemma cleanElems_one:
  "Separator \<notin> set b \<Longrightarrow> \<forall>c\<in>set D. validName c \<Longrightarrow>
   cleanElems True (rev D) [b] = D \<or> cleanElems True (rev D) [b] = butlast D \<or>
   cleanElems True (rev D) [b] = D @ [b]"
proof -
  assume b: "Separator \<notin> set b" and D: "\<forall>c\<in>set D. validName c"
  show ?thesis
  proof (cases "b = ''..''")
    case True
    show ?thesis
    proof (cases D rule: rev_cases)
      case Nil
      then show ?thesis using True by simp
    next
      case (snoc ys y)
      then have "y \<noteq> ''..''" using D by (auto simp: validName_def)
      then show ?thesis using True snoc by simp
    qed
  next
    case False
    then show ?thesis by auto
  qed
qed

lemma locOf_split:
  "locOf e p = cleanElems True (rev (locOf e (Dir p)))
                 [rev (takeWhile (\<lambda>c. c \<noteq> Separator) (rev p))]"
proof -
  define d where "d = rev (dropWhile (\<lambda>c. c \<noteq> Separator) (rev p))"
  define b where "b = rev (takeWhile (\<lambda>c. c \<noteq> Separator) (rev p))"
  have ps: "p = d @ b" "Separator \<notin> set b" "d = [] \<or> (\<exists>d0. d = d0 @ [Separator])"
    using path_split[of p] by (simp_all add: d_def b_def)
  have D: "locOf e (Dir p) = locOf e d" by (simp add: locOf_Dir d_def)
  have "locOf e p = cleanElems True (rev (locOf e (Dir p))) [b]"
  proof (cases "d = []")
    case True
    then have pb: "p = b" using ps(1) by simp
    have "\<not> IsAbs b" using ps(2) by (cases b) auto
    then have "locOf e b = cleanElems True (rev (cwd e)) [b]"
      using ps(2) by (simp add: locOf_def splitSep_nosep del: cleanElems.simps)
    moreover have "locOf e (Dir p) = cwd e" using D True by simp
    ultimately show ?thesis using pb by (simp del: cleanElems.simps)
  next
    case False
    then obtain d0 where d: "d = d0 @ [Separator]" using ps(3) by auto
    have a: "IsAbs (d @ b) = IsAbs d" using False by (rule IsAbs_append)
    have s1: "splitSep (d @ b) = splitSep d0 @ [b]"
      using d ps(2) by (simp add: splitSep_append_sep splitSep_nosep)
    have s2: "splitSep d = splitSep d0 @ [[]]"
      using d by (simp add: splitSep_append_sep)
    have ld: "locOf e d = cleanElems True (if IsAbs d then [] else rev (cwd e)) (splitSep d0)"
      by (simp add: locOf_def s2 cleanElems_snoc_empty del: cleanElems.simps)
    have "locOf e (d @ b)
          = cleanElems True (if IsAbs d then [] else rev (cwd e)) (splitSep d0 @ [b])"
      using a by (simp add: locOf_def s1 del: cleanElems.simps)
    also have "\<dots> = cleanElems True (rev (locOf e d)) [b]"
      unfolding ld by (rule cleanElems_append)
    finally have "locOf e (d @ b) = cleanElems True (rev (locOf e d)) [b]" .
    then show ?thesis using ps(1) D by (simp del: cleanElems.simps)
  qed
  then show ?thesis by (simp only: b_def)
qed

lemma locOf_Dir_cases:
  assumes "validEnv e"
  shows "locOf e p = locOf e (Dir p) \<or> locOf e p = butlast (locOf e (Dir p)) \<or>
         (\<exists>b. locOf e p = locOf e (Dir p) @ [b])"
proof -
  have "Separator \<notin> set (rev (takeWhile (\<lambda>c. c \<noteq> Separator) (rev p)))"
    using set_takeWhileD[of Separator "\<lambda>c. c \<noteq> Separator" "rev p"] by auto
  from cleanElems_one[OF this locOf_valid[OF assms, of "Dir p"]]
  show ?thesis unfolding locOf_split[of e p, symmetric] by auto
qed

lemma locOf_Join_Base_cases:
  assumes "validEnv e" and "p \<noteq> []"
  shows "locOf e (Join [p, Base src]) = locOf e p \<or>
         locOf e (Join [p, Base src]) = butlast (locOf e p) \<or>
         (\<exists>b. locOf e (Join [p, Base src]) = locOf e p @ [b])"
proof -
  have j: "locOf e (Join [p, Base src]) = cleanElems True (rev (locOf e p)) (splitSep (Base src))"
    using assms(2) by (intro locOf_Join2) simp
  show ?thesis
  proof (cases "Base src = [Separator]")
    case True
    then show ?thesis using j by simp
  next
    case False
    then have n: "Separator \<notin> set (Base src)" using Base_cases[of src] by simp
    then have "splitSep (Base src) = [Base src]" by (rule splitSep_nosep)
    then show ?thesis using j cleanElems_one[OF n locOf_valid[OF assms(1), of p]]
      by (auto simp del: cleanElems.simps)
  qed
qed

lemma prefix_butlast: "prefix (butlast xs) xs"
  by (metis append_butlast_last_id butlast.simps(1) prefixI prefix_order.order_refl)

lemma copyTo_missing_source:
  assumes "validEnv e" and "lookup (root s) (locOf e src) = None"
    and "copyTo e s src p = (r, s')"
    and np: "\<not> (\<exists>b. locOf e p = locOf e (Dir p) @ [b] \<and> prefix (locOf e src) (locOf e (Dir p)))"
  shows "(\<exists>x. r = Inl x) \<and> opened s' = opened s \<and>
         (\<forall>m c. lookup (root s') m = Some (RegFile c) \<longleftrightarrow> lookup (root s) m = Some (RegFile c))"
proof -
  have op: "opened s' = opened s" using copyTo_opened[of e s src p] assms(3) by simp
  obtain r1 s1 where m: "MkdirAll e s (Dir p) = (r1, s1)" by fastforce
  show ?thesis
  proof (cases r1)
    case (Inl x)
    then have "s1 = s" using MkdirAll_Inl m by blast
    then show ?thesis using assms(3) m Inl op by (auto simp: copyTo_def)
  next
    case (Inr u1)
    then have mk: "mkdirAll (root s) (locOf e (Dir p)) = Some (root s1)"
      using MkdirAll_Inr[of e s "Dir p" u1 s1] m by auto
    have files: "\<forall>m c. lookup (root s1) m = Some (RegFile c) \<longleftrightarrow> lookup (root s) m = Some (RegFile c)"
      using mkdirAll_file_iff[OF mk] by simp
    obtain r2 s2 where o: "Open e s1 src = (r2, s2)" by fastforce
    show ?thesis
    proof (cases r2)
      case (Inl x)
      then have "s2 = s1" using Open_Inl o by blast
      then show ?thesis using assms(3) m Inr o Inl op files by (auto simp: copyTo_def)
    next
      case h: (Inr h)
      then obtain n where s2: "s2 = s1\<lparr>opened := h # opened s1\<rparr>"
        and rs: "resolve e s1 src = Inr (snd h, n)"
        using Open_Inr[of e s1 src h s2] o by auto
      have L: "lookup (root s1) (locOf e src) = Some n"
        using resolve_loc[OF rs assms(1)] by auto
      have pre: "prefix (locOf e src) (locOf e (Dir p))"
      proof (rule ccontr)
        assume "\<not> prefix (locOf e src) (locOf e (Dir p))"
        then have "lookup (root s1) (locOf e src) = lookup (root s) (locOf e src)"
          by (rule mkdirAll_other[OF mk])
        then show False using L assms(2) by simp
      qed
      have res: "copyTo e s src p = deferred e [h] (copyOpened e s2 h p)"
        using m Inr o h by (simp add: copyTo_def)
      obtain r3 s3 where c: "Create e s2 p = (r3, s3)" by fastforce
      show ?thesis
      proof (cases r3)
        case (Inl x)
        then have "s3 = s2" using Create_Inl c by blast
        then have "copyOpened e s2 h p = (Inl (Wrap ''failed to create destination file'' x), s2)"
          using c Inl by (simp add: copyOpened_def)
        then have "r = Inl (Wrap ''failed to create destination file'' x)" "root s' = root s2"
          using res assms(3) by (auto simp: deferred_def)
        then show ?thesis using op files s2 by auto
      next
        case (Inr hd)
        then have w: "writable (root s2) (locOf e p)"
          using Create_Inr_loc[OF _ assms(1), of s2 p hd s3] c by auto
        have rt: "root s2 = root s1" using s2 by simp
        have False
        proof -
          from locOf_Dir_cases[OF assms(1), of p]
          consider "prefix (locOf e p) (locOf e (Dir p))" | b where "locOf e p = locOf e (Dir p) @ [b]"
            using prefix_butlast[of "locOf e (Dir p)"] by auto
          then show False
          proof cases
            case 1
            then obtain es where "lookup (root s1) (locOf e p) = Some (Directory es)"
              using mkdirAll_prefix[OF mk] by blast
            then show False using writable_not_dir[OF w, of es] rt by simp
          next
            case 2
            then show False using np pre by blast
          qed
        qed
        then show ?thesis ..
      qed
    qed
  qed
qed

lemma Stat_missing:
  assumes "resolve e s p = Inl n"
  shows "\<exists>x. Stat e s p = Inl x"
  using assms by (auto simp: Stat_def split: option.splits)

lemma Lstat_missing:
  assumes "resolve e s p = Inl n"
  shows "\<exists>x. Lstat e s p = Inl x"
  using assms by (auto simp: Lstat_def split: option.splits)

lemma backupFile_opened: "opened (snd (backupFile e s src dst)) = opened s"
  by (simp add: backupFile_parts copyTo_opened split: sum.splits)

lemma guard_error_shape:
  "ensureDstOutsideSrc e src dst = Inl x \<Longrightarrow>
   wrappedByEngine x \<or> x = ErrorString ''destination cannot be inside source directory''"
  by (auto simp: ensureDstOutsideSrc_def engineMessages_def split: sum.splits if_splits)

lemma effectiveDst_error_shape: "effectiveDst e s src dst = Inl x \<Longrightarrow> wrappedByEngine x"
  by (auto simp: effectiveDst_def engineMessages_def split: sum.splits if_splits)

lemma Sync_Inl: "Sync e s f = (Inl x, s') \<Longrightarrow> \<exists>n. x = PathError ''sync'' (fst f) n \<and> fault e OpSync (fst f) = Some n"
  by (auto simp: Sync_def split: option.splits)

lemma copyOpened_error_shape:
  assumes "fst (copyOpened e s h p) = Inl x"
  shows "wrappedByEngine x \<or> (\<exists>q n. x = PathError ''sync'' q n \<and> fault e OpSync q = Some n)"
proof -
  obtain r3 s3 where c: "Create e s p = (r3, s3)" by fastforce
  show ?thesis
  proof (cases r3)
    case (Inl y)
    then show ?thesis using assms c by (auto simp: copyOpened_def engineMessages_def)
  next
    case (Inr hd)
    obtain r4 s4 where cp: "Copy e s3 hd h = (r4, s4)" by fastforce
    show ?thesis
    proof (cases r4)
      case (Inl y)
      then show ?thesis using assms c Inr cp by (auto simp: copyOpened_def engineMessages_def)
    next
      case k: (Inr k)
      obtain r5 s5 where sy: "Sync e s4 hd = (r5, s5)" by fastforce
      then have "r5 = Inl x" using assms c Inr cp k by (simp add: copyOpened_def)
      then show ?thesis using Sync_Inl[of e s4 hd x s5] sy by auto
    qed
  qed
qed

lemma copyTo_error_shape:
  assumes "fst (copyTo e s src p) = Inl x"
  shows "wrappedByEngine x \<or> (\<exists>q n. x = PathError ''sync'' q n \<and> fault e OpSync q = Some n)"
proof -
  obtain r1 s1 where m: "MkdirAll e s (Dir p) = (r1, s1)" by fastforce
  show ?thesis
  proof (cases r1)
    case (Inl y)
    then show ?thesis using assms m by (auto simp: copyTo_def engineMessages_def)
  next
    case (Inr u)
    obtain r2 s2 where o: "Open e s1 src = (r2, s2)" by fastforce
    show ?thesis
    proof (cases r2)
      case (Inl y)
      then show ?thesis using assms m Inr o by (auto simp: copyTo_def engineMessages_def)
    next
      case h: (Inr h)
      then have "fst (copyOpened e s2 h p) = Inl x"
        using assms m Inr o by (simp add: copyTo_def)
      then show ?thesis by (rule copyOpened_error_shape)
    qed
  qed
qed

lemma withClose_simps:
  "cwd (withClose e f) = cwd e"
  "short_write (withClose e f) = short_write e"
  "fault (withClose e f) OpGetwd = fault e OpGetwd"
  "fault (withClose e f) OpStat = fault e OpStat"
  "fault (withClose e f) OpMkdir = fault e OpMkdir"
  "fault (withClose e f) OpOpen = fault e OpOpen"
  "fault (withClose e f) OpCreate = fault e OpCreate"
  "fault (withClose e f) OpRead = fault e OpRead"
  "fault (withClose e f) OpWrite = fault e OpWrite"
  "fault (withClose e f) OpSync = fault e OpSync"
  by (simp_all add: withClose_def)

lemma withClose_ops:
  "resolve (withClose e f) = resolve e"
  "locOf (withClose e f) = locOf e"
  "Getwd (withClose e f) = Getwd e"
  "Stat (withClose e f) = Stat e"
  "MkdirAll (withClose e f) = MkdirAll e"
  "Open (withClose e f) = Open e"
  "Create (withClose e f) = Create e"
  "Copy (withClose e f) = Copy e"
  "Sync (withClose e f) = Sync e"
proof -
  show r: "resolve (withClose e f) = resolve e"
    by (intro ext) (simp add: resolve_def withClose_simps)
  show l: "locOf (withClose e f) = locOf e"
    by (intro ext) (simp add: locOf_def withClose_simps)
  show "Getwd (withClose e f) = Getwd e"
    unfolding Getwd_def withClose_simps by (rule refl)
  show "Stat (withClose e f) = Stat e"
    unfolding Stat_def r withClose_simps by (rule refl)
  show "MkdirAll (withClose e f) = MkdirAll e"
    unfolding MkdirAll_def l withClose_simps by (rule refl)
  show "Open (withClose e f) = Open e"
    unfolding Open_def r withClose_simps by (rule refl)
  show "Create (withClose e f) = Create e"
    unfolding Create_def r withClose_simps by (rule refl)
  show "Copy (withClose e f) = Copy e"
    unfolding Copy_def withClose_simps by (rule refl)
  show "Sync (withClose e f) = Sync e"
    unfolding Sync_def withClose_simps by (rule refl)
qed

lemma withClose_Close: "snd (Close (withClose e f) s h) = snd (Close e s h)"
  by (simp add: Close_def withClose_def split: option.splits)

lemma withClose_Abs: "Abs (withClose e f) = Abs e"
  unfolding Abs_def withClose_ops by (rule refl)

lemma withClose_guard: "ensureDstOutsideSrc (withClose e f) = ensureDstOutsideSrc e"
  unfolding ensureDstOutsideSrc_def withClose_Abs by (rule refl)

lemma withClose_deferred: "deferred (withClose e f) hs r = deferred e hs r"
proof -
  have "(\<lambda>h s. snd (Close (withClose e f) s h)) = (\<lambda>h s. snd (Close e s h))"
    by (intro ext) (rule withClose_Close)
  then show ?thesis by (simp add: deferred_def)
qed

lemma withClose_backupFile: "backupFile (withClose e f) s src dst = backupFile e s src dst"
  unfolding backupFile_def withClose_ops withClose_guard withClose_deferred by (rule refl)

section \<open>The containment guard\<close>

text \<open>
  C2.  The guard is meant to fail whenever the destination is the source or lies
  inside it.  It tests whether the relative path, as a string, starts with two dots;
  a destination inside the source whose first element below the source itself starts
  with two dots is therefore accepted: for the source \<^verbatim>\<open>/a\<close> and the destination
  \<^verbatim>\<open>/a/..b\<close> the relative path is \<^verbatim>\<open>..b\<close> and the guard returns no error.
\<close>

theorem guard_accepts_dotdot_name:
  "Rel ''/a'' ''/a/..b'' = Inr ''..b'' \<and>
   ensureDstOutsideSrc \<lparr>cwd = [], fault = (\<lambda>_ _. None), short_write = (\<lambda>_. 0)\<rparr>
     ''/a'' ''/a/..b'' = Inr ()"
  by (simp add: ensureDstOutsideSrc_def Abs_def Rel_def Clean_def IsAbs_def HasPrefix_def
      Separator_def relElems_def)

text \<open>
  C3.  When both paths resolve and the resolved destination neither is the resolved
  source nor lies below it, the guard returns no error; this includes paths that share
  no ancestor but the root.
\<close>

theorem guard_succeeds_outside:
  assumes "Abs e src = Inr a" and "Abs e dst = Inr d" and "\<not> descendsFrom d a"
  shows "ensureDstOutsideSrc e src dst = Inr ()"
proof -
  obtain A where A: "a = Separator # joinSep A" "\<forall>n\<in>set A. validName n"
    using Abs_form[OF assms(1)] by blast
  obtain D where D: "d = Separator # joinSep D" "\<forall>n\<in>set D. validName n"
    using Abs_form[OF assms(2)] by blast
  have "\<not> prefix A D" using assms(3) A D by (simp add: descendsFrom_def elems_rooted)
  from Rel_rooted_outside[OF A(2) D(2) this] obtain k ts where
    "Rel a d = Inr (joinSep (''..'' # replicate k ''..'' @ ts))" using A D by auto
  then show ?thesis
    using assms(1,2) joinSep_dotdot_prefix[of "replicate k ''..'' @ ts"]
    by (simp add: ensureDstOutsideSrc_def)
qed

theorem guard_succeeds_outside_witness:
  "Abs (quiet [''w'']) ''docs'' = Inr ''/w/docs'' \<and>
   Abs (quiet [''w'']) ''/backup'' = Inr ''/backup'' \<and>
   \<not> descendsFrom ''/backup'' ''/w/docs'' \<and>
   ensureDstOutsideSrc (quiet [''w'']) ''docs'' ''/backup'' = Inr ()"
proof -
  have a: "Abs (quiet [''w'']) ''docs'' = Inr ''/w/docs''"
    by (simp add: Abs_def Getwd_def quiet_def Join_def Clean_def Separator_def)
  have d: "Abs (quiet [''w'']) ''/backup'' = Inr ''/backup''"
    by (simp add: Abs_def Clean_def Separator_def)
  have n: "\<not> descendsFrom ''/backup'' ''/w/docs''"
    by (simp add: descendsFrom_def elems_def Separator_def)
  show ?thesis using guard_succeeds_outside[OF a d n] a d n by simp
qed

section \<open>File handles\<close>

text \<open>
  C9.  Whatever \<^verbatim>\<open>backupFile\<close> returns, and whichever step failed, the handles open
  after the call are those open before it: it has released every handle it opened.
\<close>

theorem backupFile_releases_handles:
  "opened (snd (backupFile e s src dst)) = opened s"
  by (simp add: backupFile_parts copyTo_opened split: sum.splits)

section \<open>Copying one file\<close>

text \<open>
  C5.  When the destination is an existing directory and \<^verbatim>\<open>backupFile\<close> succeeds, the
  location named by the destination joined with the base name of the source holds a
  regular file with the bytes of the source (no bytes in the one case where that
  location is the source itself, which \<^verbatim>\<open>os.Create\<close> has truncated before the copy).
  When the containment guard passes and \<^verbatim>\<open>os.Stat\<close> of the destination fails with an
  error other than not-exist, \<^verbatim>\<open>backupFile\<close> returns that error wrapped as
  "failed to access destination" and the state is the one it started from.
\<close>

theorem backupFile_into_directory:
  assumes "validEnv e"
  shows "(Stat e s dst = Inr (FileInfo True) \<and> backupFile e s src dst = (Inr (), s') \<longrightarrow>
            (\<exists>bytes. lookup (root s) (locOf e src) = Some (RegFile bytes) \<and>
               lookup (root s') (locOf e (Join [dst, Base src])) =
                 Some (RegFile (if locOf e (Join [dst, Base src]) = locOf e src
                                then [] else bytes)))) \<and>
         (\<forall>x. ensureDstOutsideSrc e src dst = Inr () \<and> Stat e s dst = Inl x \<and> \<not> IsNotExist x \<longrightarrow>
            backupFile e s src dst = (Inl (Wrap ''failed to access destination'' x), s))"
proof (intro conjI impI allI)
  assume h: "Stat e s dst = Inr (FileInfo True) \<and> backupFile e s src dst = (Inr (), s')"
  then have ed: "effectiveDst e s src dst = Inr (Join [dst, Base src])"
    by (simp add: effectiveDst_def)
  have "copyTo e s src (Join [dst, Base src]) = (Inr (), s')"
    using h ed by (auto simp: backupFile_parts split: sum.splits)
  from copyTo_Inr[OF this assms] obtain t1 bytes where
    w: "writable t1 (locOf e (Join [dst, Base src]))" and
    b: "lookup (root s) (locOf e src) = Some (RegFile bytes)" and
    r: "root s' = put (put t1 (locOf e (Join [dst, Base src])) (RegFile []))
                    (locOf e (Join [dst, Base src]))
                    (RegFile (if locOf e (Join [dst, Base src]) = locOf e src then [] else bytes))"
    by blast
  show "\<exists>bytes. lookup (root s) (locOf e src) = Some (RegFile bytes) \<and>
          lookup (root s') (locOf e (Join [dst, Base src])) =
            Some (RegFile (if locOf e (Join [dst, Base src]) = locOf e src then [] else bytes))"
    using b r put_put_lookup[OF w] by (intro exI[of _ bytes]) simp
next
  fix x
  assume "ensureDstOutsideSrc e src dst = Inr () \<and> Stat e s dst = Inl x \<and> \<not> IsNotExist x"
  then show "backupFile e s src dst = (Inl (Wrap ''failed to access destination'' x), s)"
    by (simp add: backupFile_parts effectiveDst_def)
qed

theorem backupFile_into_directory_witness:
  "validEnv (quiet [''w'']) \<and>
   Stat (quiet [''w'']) demo ''/t2'' = Inr (FileInfo True) \<and>
   fst (backupFile (quiet [''w'']) demo ''/t1/source.txt'' ''/t2'') = Inr () \<and>
   lookup (root (snd (backupFile (quiet [''w'']) demo ''/t1/source.txt'' ''/t2'')))
     [''t2'', ''source.txt''] = Some (RegFile ''Hello, Directory!'') \<and>
   validEnv (deny OpStat ''/t2'') \<and>
   ensureDstOutsideSrc (deny OpStat ''/t2'') ''/t1/source.txt'' ''/t2'' = Inr () \<and>
   Stat (deny OpStat ''/t2'') demo ''/t2'' = Inl (PathError ''stat'' ''/t2'' EACCES) \<and>
   \<not> IsNotExist (PathError ''stat'' ''/t2'' EACCES) \<and>
   backupFile (deny OpStat ''/t2'') demo ''/t1/source.txt'' ''/t2'' =
     (Inl (Wrap ''failed to access destination'' (PathError ''stat'' ''/t2'' EACCES)), demo)"
proof -
  let ?e = "quiet [''w'']" and ?d = "deny OpStat ''/t2''"
  define s' where "s' = snd (backupFile ?e demo ''/t1/source.txt'' ''/t2'')"
  have r: "fst (backupFile ?e demo ''/t1/source.txt'' ''/t2'') = Inr ()" by code_simp
  then have b: "backupFile ?e demo ''/t1/source.txt'' ''/t2'' = (Inr (), s')"
    unfolding s'_def by (metis prod.collapse)
  have st: "Stat ?e demo ''/t2'' = Inr (FileInfo True)" by code_simp
  have l1: "locOf ?e (Join [''/t2'', Base ''/t1/source.txt'']) = [''t2'', ''source.txt'']"
    by code_simp
  have l2: "locOf ?e ''/t1/source.txt'' = [''t1'', ''source.txt'']" by code_simp
  have l3: "lookup (root demo) [''t1'', ''source.txt''] = Some (RegFile ''Hello, Directory!'')"
    by code_simp
  have g: "ensureDstOutsideSrc ?d ''/t1/source.txt'' ''/t2'' = Inr ()" by code_simp
  have sd: "Stat ?d demo ''/t2'' = Inl (PathError ''stat'' ''/t2'' EACCES)" by code_simp
  have ne: "\<not> IsNotExist (PathError ''stat'' ''/t2'' EACCES)" by code_simp
  from backupFile_into_directory[OF validEnv_quiet, of demo "''/t2''" "''/t1/source.txt''" s']
  have "lookup (root s') [''t2'', ''source.txt''] = Some (RegFile ''Hello, Directory!'')"
    using st b l1 l2 l3 by auto
  moreover from backupFile_into_directory[OF validEnv_deny, of OpStat "''/t2''" demo "''/t2''" "''/t1/source.txt''"]
  have "backupFile ?d demo ''/t1/source.txt'' ''/t2'' =
     (Inl (Wrap ''failed to access destination'' (PathError ''stat'' ''/t2'' EACCES)), demo)"
    using g sd ne by blast
  ultimately show ?thesis using validEnv_quiet validEnv_deny st r g sd ne
    unfolding s'_def by simp
qed

text \<open>
  C1.  The guard of \<^verbatim>\<open>backupFile\<close> runs on the destination as given.  When that is the
  directory holding the source, the guard passes, the destination is then redefined to
  the source file itself (a pair the guard rejects), and the copy truncates the source:
  the copy of \<^verbatim>\<open>/a/f\<close> to \<^verbatim>\<open>/a\<close> succeeds and leaves \<^verbatim>\<open>/a/f\<close> empty.
\<close>

theorem backupFile_truncates_its_source:
  "ensureDstOutsideSrc (quiet [''w'']) ''/a/f'' ''/a'' = Inr () \<and>
   effectiveDst (quiet [''w'']) demo ''/a/f'' ''/a'' = Inr ''/a/f'' \<and>
   ensureDstOutsideSrc (quiet [''w'']) ''/a/f'' ''/a/f''
     = Inl (ErrorString ''destination cannot be inside source directory'') \<and>
   lookup (root demo) [''a'', ''f''] = Some (RegFile ''X'') \<and>
   fst (backupFile (quiet [''w'']) demo ''/a/f'' ''/a'') = Inr () \<and>
   lookup (root (snd (backupFile (quiet [''w'']) demo ''/a/f'' ''/a''))) [''a'', ''f'']
     = Some (RegFile [])"
  by code_simp

section \<open>A regular file as the source of a directory backup\<close>

text \<open>
  C10.  When the guard passes and the source is a regular file, \<^verbatim>\<open>backupDirectory\<close> is
  one call of \<^verbatim>\<open>backupFile\<close> on the source and the destination joined with the
  relative path \<^verbatim>\<open>.\<close>: the walk visits the source alone (any positive depth bound
  is enough).  When the destination is an existing directory and the call succeeds,
  the location of the destination joined with the base name of the source holds a
  regular file with the bytes of the source.
\<close>

theorem backupDirectory_of_regular_file:
  assumes "validEnv e" and "ensureDstOutsideSrc e src dst = Inr ()"
    and "Lstat e s src = Inr (FileInfo False)"
  shows "backupDirectory (Suc k) e s src dst = Some (backupFile e s src (Join [dst, ''.''])) \<and>
         (Stat e s dst = Inr (FileInfo True) \<and>
          backupDirectory (Suc k) e s src dst = Some (Inr (), s') \<longrightarrow>
            (\<exists>bytes. lookup (root s) (locOf e src) = Some (RegFile bytes) \<and>
               lookup (root s') (locOf e (Join [dst, Base src])) =
                 Some (RegFile (if locOf e (Join [dst, Base src]) = locOf e src
                                then [] else bytes))))"
proof (intro conjI impI)
  show bd: "backupDirectory (Suc k) e s src dst = Some (backupFile e s src (Join [dst, ''.'']))"
    using assms(2,3)
    by (cases "backupFile e s src (Join [dst, ''.''])")
       (auto simp: backupDirectory_def WalkDir_def walkFn_def Rel_self split: sum.splits)
  assume h: "Stat e s dst = Inr (FileInfo True) \<and>
             backupDirectory (Suc k) e s src dst = Some (Inr (), s')"
  let ?p = "Join [dst, ''.'']"
  have bf: "backupFile e s src ?p = (Inr (), s')" using h bd by simp
  obtain n where n: "lookup (root s) (locOf e dst) = Some n" "isDirectory n" "dst \<noteq> []"
    using Stat_Inr[OF _ assms(1), of s dst "FileInfo True"] h by auto
  then obtain es where d: "lookup (root s) (locOf e ?p) = Some (Directory es)"
    by (cases n) (auto simp: locOf_Join_dot)
  obtain pe where pe: "effectiveDst e s src ?p = Inr pe" "copyTo e s src pe = (Inr (), s')"
    using backupFile_Inr[OF bf] by blast
  from copyTo_Inr[OF pe(2) assms(1)] obtain t1 bytes where
    m: "mkdirAll (root s) (locOf e (Dir pe)) = Some t1" and
    w: "writable t1 (locOf e pe)" and
    b: "lookup (root s) (locOf e src) = Some (RegFile bytes)" and
    r: "root s' = put (put t1 (locOf e pe) (RegFile [])) (locOf e pe)
                    (RegFile (if locOf e pe = locOf e src then [] else bytes))"
    by blast
  have "pe \<noteq> ?p"
  proof
    assume "pe = ?p"
    then obtain es' where "lookup t1 (locOf e pe) = Some (Directory es')"
      using mkdirAll_keeps_dir[OF m d] by auto
    then show False using writable_not_dir[OF w] by simp
  qed
  then have pe': "pe = Join [?p, Base src]" using effectiveDst_cases[OF pe(1)] by auto
  have "?p \<noteq> []" by (rule Join2_ne) simp
  then have "locOf e pe = cleanElems True (rev (locOf e ?p)) (splitSep (Base src))"
    unfolding pe' by (intro locOf_Join2) simp
  also have "\<dots> = cleanElems True (rev (locOf e dst)) (splitSep (Base src))"
    by (simp add: locOf_Join_dot)
  also have "\<dots> = locOf e (Join [dst, Base src])"
    using n(3) by (intro locOf_Join2[symmetric]) simp
  finally have eq: "locOf e pe = locOf e (Join [dst, Base src])" .
  show "\<exists>bytes. lookup (root s) (locOf e src) = Some (RegFile bytes) \<and>
          lookup (root s') (locOf e (Join [dst, Base src])) =
            Some (RegFile (if locOf e (Join [dst, Base src]) = locOf e src then [] else bytes))"
    using b r put_put_lookup[OF w] eq by (intro exI[of _ bytes]) simp
qed

theorem backupDirectory_of_regular_file_witness:
  "validEnv (quiet [''w'']) \<and>
   ensureDstOutsideSrc (quiet [''w'']) ''/t1/source.txt'' ''/t2'' = Inr () \<and>
   Lstat (quiet [''w'']) demo ''/t1/source.txt'' = Inr (FileInfo False) \<and>
   Stat (quiet [''w'']) demo ''/t2'' = Inr (FileInfo True) \<and>
   backupDirectory (Suc 0) (quiet [''w'']) demo ''/t1/source.txt'' ''/t2'' =
     Some (backupFile (quiet [''w'']) demo ''/t1/source.txt'' (Join [''/t2'', ''.''])) \<and>
   fst (backupFile (quiet [''w'']) demo ''/t1/source.txt'' (Join [''/t2'', ''.''])) = Inr () \<and>
   lookup (root (snd (backupFile (quiet [''w'']) demo ''/t1/source.txt'' (Join [''/t2'', ''.'']))))
     [''t2'', ''source.txt''] = Some (RegFile ''Hello, Directory!'')"
proof -
  let ?e = "quiet [''w'']"
  define s' where "s' = snd (backupFile ?e demo ''/t1/source.txt'' (Join [''/t2'', ''.'']))"
  have g: "ensureDstOutsideSrc ?e ''/t1/source.txt'' ''/t2'' = Inr ()" by code_simp
  have ls: "Lstat ?e demo ''/t1/source.txt'' = Inr (FileInfo False)" by code_simp
  have st: "Stat ?e demo ''/t2'' = Inr (FileInfo True)" by code_simp
  have r: "fst (backupFile ?e demo ''/t1/source.txt'' (Join [''/t2'', ''.''])) = Inr ()"
    by code_simp
  then have b: "backupFile ?e demo ''/t1/source.txt'' (Join [''/t2'', ''.'']) = (Inr (), s')"
    unfolding s'_def by (metis prod.collapse)
  have l1: "locOf ?e (Join [''/t2'', Base ''/t1/source.txt'']) = [''t2'', ''source.txt'']"
    by code_simp
  have l2: "locOf ?e ''/t1/source.txt'' = [''t1'', ''source.txt'']" by code_simp
  have l3: "lookup (root demo) [''t1'', ''source.txt''] = Some (RegFile ''Hello, Directory!'')"
    by code_simp
  note t = backupDirectory_of_regular_file[OF validEnv_quiet g ls, where k = 0 and s' = s']
  have bd: "backupDirectory (Suc 0) ?e demo ''/t1/source.txt'' ''/t2'' =
     Some (backupFile ?e demo ''/t1/source.txt'' (Join [''/t2'', ''.'']))"
    using t by blast
  then have "lookup (root s') [''t2'', ''source.txt''] = Some (RegFile ''Hello, Directory!'')"
    using t st b l1 l2 l3 by auto
  then show ?thesis using validEnv_quiet g ls st bd r unfolding s'_def by simp
qed

section \<open>A source that does not exist\<close>

text \<open>
  C7 as the specification states it fails for \<^verbatim>\<open>backupFile\<close>: the destination
  \<^verbatim>\<open>/t2/x/dest.txt\<close> passes the guard, the source does not exist, the call fails on
  opening the source, and by then \<^verbatim>\<open>os.MkdirAll\<close> has created the directory
  \<^verbatim>\<open>/t2/x\<close>.
\<close>

theorem backupFile_creates_directories_for_missing_source:
  "ensureDstOutsideSrc (quiet [''w'']) ''/t1/nonexistent.txt'' ''/t2/x/dest.txt'' = Inr () \<and>
   resolve (quiet [''w'']) demo ''/t1/nonexistent.txt'' = Inl ENOENT \<and>
   lookup (root demo) [''t2'', ''x''] = None \<and>
   fst (backupFile (quiet [''w'']) demo ''/t1/nonexistent.txt'' ''/t2/x/dest.txt'') =
     Inl (Wrap ''failed to open source file'' (PathError ''open'' ''/t1/nonexistent.txt'' ENOENT)) \<and>
   lookup (root (snd (backupFile (quiet [''w'']) demo ''/t1/nonexistent.txt'' ''/t2/x/dest.txt'')))
     [''t2'', ''x''] = Some (Directory [])"
  by code_simp

text \<open>
  C7, amended.  When the source path does not resolve, \<^verbatim>\<open>runE\<close> fails with the
  wrapped \<^verbatim>\<open>os.Stat\<close> error and \<^verbatim>\<open>backupDirectory\<close> fails too, both leaving the state
  as it was.  When nothing exists at the location of the source, \<^verbatim>\<open>backupFile\<close>
  fails; if moreover the destination is not inside the source, it leaves the open handles
  and every regular file as they were and creates no file (it may have created
  directories).
\<close>

theorem missing_source_fails:
  assumes "validEnv e"
  shows "(resolve e s src = Inl n \<longrightarrow>
            (\<exists>x. runE k e s [src, dst] = Some (Inl (Wrap ''unable to access source'' x), s)) \<and>
            (\<exists>x. backupDirectory k e s src dst = Some (Inl x, s))) \<and>
         (lookup (root s) (locOf e src) = None \<longrightarrow>
            (\<exists>x. fst (backupFile e s src dst) = Inl x) \<and>
            (\<not> prefix (locOf e src) (locOf e dst) \<longrightarrow>
               opened (snd (backupFile e s src dst)) = opened s \<and>
               (\<forall>m c. lookup (root (snd (backupFile e s src dst))) m = Some (RegFile c)
                  \<longleftrightarrow> lookup (root s) m = Some (RegFile c))))"
proof (intro conjI impI)
  assume r: "resolve e s src = Inl n"
  obtain x where x: "Stat e s src = Inl x" using Stat_missing[OF r] by blast
  then show "\<exists>x. runE k e s [src, dst] = Some (Inl (Wrap ''unable to access source'' x), s)"
    by (simp add: runE_def)
  obtain y where y: "Lstat e s src = Inl y" using Lstat_missing[OF r] by blast
  show "\<exists>x. backupDirectory k e s src dst = Some (Inl x, s)"
  proof (cases "ensureDstOutsideSrc e src dst")
    case (Inl z)
    then show ?thesis by (simp add: backupDirectory_def)
  next
    case (Inr u)
    then show ?thesis using y by (simp add: backupDirectory_def WalkDir_def walkFn_def)
  qed
next
  assume L: "lookup (root s) (locOf e src) = None"
  show "\<exists>x. fst (backupFile e s src dst) = Inl x"
  proof (cases "fst (backupFile e s src dst)")
    case (Inl x)
    then show ?thesis by simp
  next
    case (Inr u)
    then have "backupFile e s src dst = (Inr u, snd (backupFile e s src dst))"
      by (metis prod.collapse)
    then obtain pe where "copyTo e s src pe = (Inr u, snd (backupFile e s src dst))"
      using backupFile_Inr by blast
    from copyTo_Inr[OF this assms] show ?thesis using L by auto
  qed
next
  assume L: "lookup (root s) (locOf e src) = None"
    and np: "\<not> prefix (locOf e src) (locOf e dst)"
  show "opened (snd (backupFile e s src dst)) = opened s" by (rule backupFile_opened)
next
  assume L: "lookup (root s) (locOf e src) = None"
    and np: "\<not> prefix (locOf e src) (locOf e dst)"
  show "\<forall>m c. lookup (root (snd (backupFile e s src dst))) m = Some (RegFile c)
          \<longleftrightarrow> lookup (root s) m = Some (RegFile c)"
  proof (cases "ensureDstOutsideSrc e src dst")
    case (Inl z)
    then show ?thesis by (simp add: backupFile_parts)
  next
    case g: (Inr u)
    show ?thesis
    proof (cases "effectiveDst e s src dst")
      case (Inl z)
      then show ?thesis using g by (simp add: backupFile_parts)
    next
      case (Inr pe)
      then have bf: "backupFile e s src dst = copyTo e s src pe"
        using g by (simp add: backupFile_parts)
      have c: "copyTo e s src pe = (fst (copyTo e s src pe), snd (copyTo e s src pe))" by simp
      have "\<not> (\<exists>b. locOf e pe = locOf e (Dir pe) @ [b] \<and> prefix (locOf e src) (locOf e (Dir pe)))"
      proof
        assume "\<exists>b. locOf e pe = locOf e (Dir pe) @ [b] \<and> prefix (locOf e src) (locOf e (Dir pe))"
        then obtain b where b: "locOf e pe = locOf e (Dir pe) @ [b]"
          and pre: "prefix (locOf e src) (locOf e (Dir pe))" by blast
        from effectiveDst_cases[OF Inr] show False
        proof (elim disjE conjE)
          assume "pe = dst"
          then have "prefix (locOf e src) (locOf e dst)" using b pre by (auto simp: prefix_def)
          then show False using np by simp
        next
          assume st: "Stat e s dst = Inr (FileInfo True)" and pe: "pe = Join [dst, Base src]"
          obtain nd where nd: "lookup (root s) (locOf e dst) = Some nd" "dst \<noteq> []"
            using Stat_Inr[OF st assms] by blast
          from locOf_Join_Base_cases[OF assms nd(2), of src]
          have "prefix (locOf e (Dir pe)) (locOf e dst)"
            using b pe prefix_butlast[of "locOf e dst"]
            by (elim disjE exE) (auto simp: prefix_def butlast_append split: if_splits)
          then have "prefix (locOf e src) (locOf e dst)" using pre by auto
          then show False using lookup_prefix_exists[OF nd(1)] L by blast
        qed
      qed
      from copyTo_missing_source[OF assms L c this] show ?thesis using bf by simp
    qed
  qed
qed

theorem missing_source_fails_witness:
  "validEnv (quiet [''w'']) \<and>
   resolve (quiet [''w'']) demo ''/t1/nonexistent.txt'' = Inl ENOENT \<and>
   lookup (root demo) (locOf (quiet [''w'']) ''/t1/nonexistent.txt'') = None \<and>
   \<not> prefix (locOf (quiet [''w'']) ''/t1/nonexistent.txt'') (locOf (quiet [''w'']) ''/t2/x/dest.txt'') \<and>
   runE 1 (quiet [''w'']) demo [''/t1/nonexistent.txt'', ''/t2/x/dest.txt''] =
     Some (Inl (Wrap ''unable to access source'' (PathError ''stat'' ''/t1/nonexistent.txt'' ENOENT)),
           demo) \<and>
   backupDirectory 1 (quiet [''w'']) demo ''/t1/nonexistent.txt'' ''/t2/x/dest.txt'' =
     Some (Inl (PathError ''lstat'' ''/t1/nonexistent.txt'' ENOENT), demo) \<and>
   fst (backupFile (quiet [''w'']) demo ''/t1/nonexistent.txt'' ''/t2/x/dest.txt'') =
     Inl (Wrap ''failed to open source file'' (PathError ''open'' ''/t1/nonexistent.txt'' ENOENT)) \<and>
   opened (snd (backupFile (quiet [''w'']) demo ''/t1/nonexistent.txt'' ''/t2/x/dest.txt'')) = [] \<and>
   lookup (root (snd (backupFile (quiet [''w'']) demo ''/t1/nonexistent.txt'' ''/t2/x/dest.txt'')))
     [''t2'', ''x'', ''dest.txt''] = None \<and>
   lookup (root (snd (backupFile (quiet [''w'']) demo ''/t1/nonexistent.txt'' ''/t2/x/dest.txt'')))
     [''t1'', ''source.txt''] = Some (RegFile ''Hello, Directory!'')"
proof -
  let ?e = "quiet [''w'']" and ?src = "''/t1/nonexistent.txt''" and ?dst = "''/t2/x/dest.txt''"
  have r: "resolve ?e demo ?src = Inl ENOENT" by code_simp
  have l: "lookup (root demo) (locOf ?e ?src) = None" by code_simp
  have np: "\<not> prefix (locOf ?e ?src) (locOf ?e ?dst)" by code_simp
  have ru: "runE 1 ?e demo [?src, ?dst] =
     Some (Inl (Wrap ''unable to access source'' (PathError ''stat'' ?src ENOENT)), demo)"
    by code_simp
  have bd: "backupDirectory 1 ?e demo ?src ?dst = Some (Inl (PathError ''lstat'' ?src ENOENT), demo)"
    by code_simp
  have bf: "fst (backupFile ?e demo ?src ?dst) =
     Inl (Wrap ''failed to open source file'' (PathError ''open'' ?src ENOENT))"
    by code_simp
  have o: "opened demo = []" by code_simp
  have f2: "lookup (root demo) [''t1'', ''source.txt''] = Some (RegFile ''Hello, Directory!'')"
    by code_simp
  note t = missing_source_fails[OF validEnv_quiet, where s = demo and src = ?src and dst = ?dst
      and n = ENOENT and k = 1]
  have "opened (snd (backupFile ?e demo ?src ?dst)) = []" using t l np o by simp
  moreover have "lookup (root (snd (backupFile ?e demo ?src ?dst))) [''t2'', ''x'', ''dest.txt''] = None"
    by code_simp
  moreover have "lookup (root (snd (backupFile ?e demo ?src ?dst))) [''t1'', ''source.txt'']
      = Some (RegFile ''Hello, Directory!'')"
    using t l np f2 by simp
  ultimately show ?thesis using validEnv_quiet r l np ru bd bf by simp
qed

section \<open>Errors and the exit status\<close>

text \<open>
  C8 as the specification states it fails twice: the error of \<^verbatim>\<open>Sync\<close> is returned as
  it is, wrapped in no message of the program, and the error of a deferred \<^verbatim>\<open>Close\<close> is
  dropped: the copy succeeds and \<^verbatim>\<open>main\<close> exits with status 0.
\<close>

theorem sync_error_unwrapped_close_error_dropped:
  "fst (backupFile (deny OpSync ''/t2/d.txt'') demo ''/t1/source.txt'' ''/t2/d.txt'') =
     Inl (PathError ''sync'' ''/t2/d.txt'' EACCES) \<and>
   \<not> wrappedByEngine (PathError ''sync'' ''/t2/d.txt'' EACCES) \<and>
   fst (Close (deny OpClose ''/t2/d.txt'') demo (''/t2/d.txt'', [''t2'', ''d.txt''])) =
     Inl (PathError ''close'' ''/t2/d.txt'' EACCES) \<and>
   fst (backupFile (deny OpClose ''/t2/d.txt'') demo ''/t1/source.txt'' ''/t2/d.txt'') = Inr () \<and>
   map_option fst (main 1 (deny OpClose ''/t2/d.txt'') demo [''/t1/source.txt'', ''/t2/d.txt''])
     = Some 0"
  by code_simp

text \<open>
  C8, amended.  An error \<^verbatim>\<open>backupFile\<close> returns is wrapped in one of the messages of the
  program, or is the guard's own message, or is the error of \<^verbatim>\<open>Sync\<close> as it is.  The
  failures of \<^verbatim>\<open>Close\<close> change nothing in what \<^verbatim>\<open>backupFile\<close> returns.  An error
  returned by \<^verbatim>\<open>runE\<close> makes \<^verbatim>\<open>main\<close> exit with status 1, and success with status 0.
\<close>

theorem errors_reach_the_caller:
  "(fst (backupFile e s src dst) = Inl x \<longrightarrow>
      wrappedByEngine x \<or> x = ErrorString ''destination cannot be inside source directory'' \<or>
      (\<exists>q n. x = PathError ''sync'' q n \<and> fault e OpSync q = Some n)) \<and>
   backupFile (withClose e f) s src dst = backupFile e s src dst \<and>
   (src \<noteq> ''version'' \<longrightarrow>
      (runE k e s [src, dst] = Some (Inl x, s') \<longrightarrow> main k e s [src, dst] = Some (1, s')) \<and>
      (runE k e s [src, dst] = Some (Inr (), s') \<longrightarrow> main k e s [src, dst] = Some (0, s')))"
proof (intro conjI impI)
  assume a: "fst (backupFile e s src dst) = Inl x"
  show "wrappedByEngine x \<or> x = ErrorString ''destination cannot be inside source directory'' \<or>
        (\<exists>q n. x = PathError ''sync'' q n \<and> fault e OpSync q = Some n)"
  proof (cases "ensureDstOutsideSrc e src dst")
    case (Inl y)
    then have "x = y" using a by (simp add: backupFile_parts)
    then show ?thesis using guard_error_shape[OF Inl] by auto
  next
    case g: (Inr u)
    show ?thesis
    proof (cases "effectiveDst e s src dst")
      case (Inl y)
      then have "x = y" using a g by (simp add: backupFile_parts)
      then show ?thesis using effectiveDst_error_shape[OF Inl] by auto
    next
      case (Inr pe)
      then have "fst (copyTo e s src pe) = Inl x" using a g by (simp add: backupFile_parts)
      then show ?thesis using copyTo_error_shape by blast
    qed
  qed
next
  show "backupFile (withClose e f) s src dst = backupFile e s src dst"
    by (rule withClose_backupFile)
next
  assume "src \<noteq> ''version''" and "runE k e s [src, dst] = Some (Inl x, s')"
  then show "main k e s [src, dst] = Some (1, s')" by (simp add: main_def Execute_def)
next
  assume "src \<noteq> ''version''" and "runE k e s [src, dst] = Some (Inr (), s')"
  then show "main k e s [src, dst] = Some (0, s')" by (simp add: main_def Execute_def)
qed

theorem errors_reach_the_caller_witness:
  "fst (backupFile (deny OpOpen ''/t1/source.txt'') demo ''/t1/source.txt'' ''/t2/d.txt'') =
     Inl (Wrap ''failed to open source file'' (PathError ''open'' ''/t1/source.txt'' EACCES)) \<and>
   wrappedByEngine (Wrap ''failed to open source file'' (PathError ''open'' ''/t1/source.txt'' EACCES)) \<and>
   ''/t1/source.txt'' \<noteq> ''version'' \<and>
   runE 1 (deny OpOpen ''/t1/source.txt'') demo [''/t1/source.txt'', ''/t2/d.txt''] =
     Some (Inl (Wrap ''failed to open source file'' (PathError ''open'' ''/t1/source.txt'' EACCES)),
           demo) \<and>
   main 1 (deny OpOpen ''/t1/source.txt'') demo [''/t1/source.txt'', ''/t2/d.txt''] = Some (1, demo) \<and>
   runE 1 (quiet [''w'']) demo [''/t1/source.txt'', ''/t2''] =
     Some (Inr (), snd (backupFile (quiet [''w'']) demo ''/t1/source.txt'' ''/t2'')) \<and>
   main 1 (quiet [''w'']) demo [''/t1/source.txt'', ''/t2''] =
     Some (0, snd (backupFile (quiet [''w'']) demo ''/t1/source.txt'' ''/t2''))"
proof -
  let ?d = "deny OpOpen ''/t1/source.txt''" and ?x =
    "Wrap ''failed to open source file'' (PathError ''open'' ''/t1/source.txt'' EACCES)"
  have b: "fst (backupFile ?d demo ''/t1/source.txt'' ''/t2/d.txt'') = Inl ?x" by code_simp
  have w: "wrappedByEngine ?x" by code_simp
  have nv: "''/t1/source.txt'' \<noteq> ''version''" by simp
  have r1: "runE 1 ?d demo [''/t1/source.txt'', ''/t2/d.txt''] = Some (Inl ?x, demo)"
    by code_simp
  have r0: "runE 1 (quiet [''w'']) demo [''/t1/source.txt'', ''/t2''] =
     Some (Inr (), snd (backupFile (quiet [''w'']) demo ''/t1/source.txt'' ''/t2''))"
    by code_simp
  have m1: "main 1 ?d demo [''/t1/source.txt'', ''/t2/d.txt''] = Some (1, demo)"
    using errors_reach_the_caller[where src = "''/t1/source.txt''" and k = 1 and e = ?d
        and s = demo and dst = "''/t2/d.txt''" and x = ?x and s' = demo] nv r1 by blast
  have m0: "main 1 (quiet [''w'']) demo [''/t1/source.txt'', ''/t2''] =
     Some (0, snd (backupFile (quiet [''w'']) demo ''/t1/source.txt'' ''/t2''))"
    using errors_reach_the_caller[where src = "''/t1/source.txt''" and k = 1
        and e = "quiet [''w'']" and s = demo and dst = "''/t2''"
        and s' = "snd (backupFile (quiet [''w'']) demo ''/t1/source.txt'' ''/t2'')"] nv r0
    by blast
  show ?thesis using b w nv r1 m1 r0 m0 by simp
qed

end
